theory Spec2Isabelle
  imports Complex_Main "HOL-Library.Sublist" "HOL-Library.Multiset"
begin

section \<open>Values of the JavaScript runtime\<close>

text \<open>
  A string is the list of its UTF-16 code units, as the runtime has it; the code units
  here are those below 256, the characters of Latin-1.

  Decoded JSON data. An object is the list of its entries in insertion order. A number
  \<open>JNum n\<close> is the double with the integer value \<open>n\<close>.
\<close>

datatype json =
    JNull
  | JBool bool
  | JNum int
  | JStr string
  | JArr "json list"
  | JObj "(string \<times> json) list"

text \<open>
  A piece of text handled by the program. \<open>Chars s\<close> is the text with the characters
  \<open>s\<close>; \<open>Json j\<close> is the text that \<open>JSON.stringify\<close> produces for \<open>j\<close>, which
  \<open>JSON.parse\<close> decodes to \<open>j\<close> again.
\<close>

datatype jstext = Chars string | Json json

type_synonym error = string

text \<open>An \<open>Error\<close> that is thrown is the left injection, carrying its message.\<close>

type_synonym 'a result = "error + 'a"

subsection \<open>Truthiness, property access, strings\<close>

fun truthy :: "json \<Rightarrow> bool" where
  "truthy JNull = False"
| "truthy (JBool b) = b"
| "truthy (JNum n) = (n \<noteq> 0)"
| "truthy (JStr s) = (s \<noteq> [])"
| "truthy (JArr xs) = True"
| "truthy (JObj kvs) = True"

text \<open>\<open>undefined\<close> is \<open>None\<close>; \<open>null\<close> and the empty string are falsy too.\<close>

fun truthy_str :: "string option \<Rightarrow> bool" where
  "truthy_str None = False"
| "truthy_str (Some s) = (s \<noteq> [])"

fun truthy_opt :: "json option \<Rightarrow> bool" where
  "truthy_opt None = False"
| "truthy_opt (Some j) = truthy j"

text \<open>\<open>a || b\<close> on optional strings.\<close>

definition or_str :: "string option \<Rightarrow> string option \<Rightarrow> string option" where
  "or_str a b = (if truthy_str a then a else b)"

text \<open>\<open>obj[key]\<close> on a decoded value: only objects have named properties here.\<close>

fun get_prop :: "json \<Rightarrow> string \<Rightarrow> json option" where
  "get_prop (JObj kvs) k = map_of kvs k"
| "get_prop _ k = None"

text \<open>
  The entries of an object are in the order in which the runtime enumerates them: first
  the keys that are array indices (the decimal form of an integer from 0 to \<open>2^32 - 2\<close>),
  in ascending order, then the other keys in the order of their creation.
\<close>

definition is_digit :: "char \<Rightarrow> bool" where
  "is_digit c = (48 \<le> (of_char c :: nat) \<and> (of_char c :: nat) \<le> 57)"

definition index_value :: "string \<Rightarrow> int" where
  "index_value k = foldl (\<lambda>a c. 10 * a + (of_char c - 48)) 0 k"

definition is_array_index :: "string \<Rightarrow> bool" where
  "is_array_index k =
     (k \<noteq> [] \<and> list_all is_digit k \<and> (hd k \<noteq> CHR ''0'' \<or> k = ''0'') \<and> length k \<le> 10
      \<and> index_value k < 4294967295)"

fun obj_replace :: "(string \<times> 'a) list \<Rightarrow> string \<Rightarrow> 'a \<Rightarrow> (string \<times> 'a) list" where
  "obj_replace [] k v = []"
| "obj_replace ((k', v') # kvs) k v =
     (if k' = k then (k, v) # kvs else (k', v') # obj_replace kvs k v)"

fun obj_insert_index :: "(string \<times> 'a) list \<Rightarrow> string \<Rightarrow> 'a \<Rightarrow> (string \<times> 'a) list" where
  "obj_insert_index [] k v = [(k, v)]"
| "obj_insert_index ((k', v') # kvs) k v =
     (if is_array_index k' \<and> index_value k' < index_value k then (k', v') # obj_insert_index kvs k v
      else (k, v) # (k', v') # kvs)"

text \<open>
  Defining the own property \<open>key\<close>, as an object literal and a spread do: an existing key
  keeps its place, a new key goes to its place in that order.
\<close>

definition obj_define :: "(string \<times> 'a) list \<Rightarrow> string \<Rightarrow> 'a \<Rightarrow> (string \<times> 'a) list" where
  "obj_define kvs k v =
     (if map_of kvs k \<noteq> None then obj_replace kvs k v
      else if is_array_index k then obj_insert_index kvs k v
      else kvs @ [(k, v)])"

text \<open>
  \<open>obj[key] = v\<close>. For the key \<open>__proto__\<close> on an object without such an own property the
  assignment goes to the setter of \<open>Object.prototype\<close>, which defines nothing and ignores
  a value that is not an object; the assignments that can reach this key assign strings.
\<close>

definition obj_set :: "(string \<times> 'a) list \<Rightarrow> string \<Rightarrow> 'a \<Rightarrow> (string \<times> 'a) list" where
  "obj_set kvs k v =
     (if k = ''__proto__'' \<and> map_of kvs k = None then kvs else obj_define kvs k v)"

text \<open>\<open>delete obj[key]\<close>.\<close>

definition obj_delete :: "(string \<times> 'a) list \<Rightarrow> string \<Rightarrow> (string \<times> 'a) list" where
  "obj_delete kvs k = filter (\<lambda>kv. fst kv \<noteq> k) kvs"

text \<open>Object spread \<open>{...a, ...b}\<close>.\<close>

definition obj_spread :: "(string \<times> 'a) list \<Rightarrow> (string \<times> 'a) list \<Rightarrow> (string \<times> 'a) list" where
  "obj_spread a b = foldl (\<lambda>acc kv. obj_define acc (fst kv) (snd kv)) a b"

definition startsWith :: "string \<Rightarrow> string \<Rightarrow> bool" where
  "startsWith s p = (take (length p) s = p)"

definition endsWith :: "string \<Rightarrow> string \<Rightarrow> bool" where
  "endsWith s p = (length p \<le> length s \<and> drop (length s - length p) s = p)"

text \<open>\<open>s.includes(p)\<close>.\<close>

fun str_includes :: "string \<Rightarrow> string \<Rightarrow> bool" where
  "str_includes [] p = (p = [])"
| "str_includes (c # s) p = (startsWith (c # s) p \<or> str_includes s p)"

text \<open>\<open>s.replace(p, r)\<close> with a string pattern: the first occurrence only.\<close>

fun replace_first :: "string \<Rightarrow> string \<Rightarrow> string \<Rightarrow> string" where
  "replace_first [] p r = (if p = [] then r else [])"
| "replace_first (c # s) p r =
     (if startsWith (c # s) p then r @ drop (length p) (c # s)
      else c # replace_first s p r)"

definition digit_char :: "nat \<Rightarrow> char" where
  "digit_char d = char_of (48 + d)"

fun show_nat :: "nat \<Rightarrow> string" where
  "show_nat n = (if n < 10 then [digit_char n] else show_nat (n div 10) @ [digit_char (n mod 10)])"

text \<open>
  \<open>Number.prototype.toString\<close> on a double with an integer value. Below \<open>2^53\<close> every
  integer is a double and is printed digit by digit. Above, the digits are the shortest
  decimal \<open>s\<close> (of \<open>k\<close> digits, with \<open>n\<close> digits before the point) that still rounds to
  the double, the one nearest to it if there are several; they are followed by zeros up
  to 21 digits and written with an exponent beyond.
\<close>

function show_digits :: "int \<Rightarrow> string" where
  "show_digits n = (if n < 10 then [digit_char (nat n)]
                    else show_digits (n div 10) @ [digit_char (nat (n mod 10))])"
  by pat_completeness auto
termination
  by (relation "measure nat") auto

function bit_length :: "int \<Rightarrow> nat" where
  "bit_length n = (if n \<le> 0 then 0 else Suc (bit_length (n div 2)))"
  by pat_completeness auto
termination
  by (relation "measure nat") auto

text \<open>The double nearest to a positive integer, ties going to the even significand.\<close>

definition round_to_double :: "int \<Rightarrow> int" where
  "round_to_double m =
     (if bit_length m \<le> 53 then m
      else (let sh = bit_length m - 53; q = m div 2 ^ sh; r = m mod 2 ^ sh
            in (if 2 ^ sh < 2 * r \<or> (2 * r = 2 ^ sh \<and> odd q) then q + 1 else q) * 2 ^ sh))"

definition digit_candidates :: "int \<Rightarrow> nat \<Rightarrow> nat \<Rightarrow> (int \<times> nat) list" where
  "digit_candidates x k n =
     map (\<lambda>s. (s, n))
       (filter (\<lambda>s. k \<le> n \<and> 10 ^ (k - 1) \<le> s \<and> s < 10 ^ k
                      \<and> round_to_double (s * 10 ^ (n - k)) = x)
          [x div 10 ^ (n - k), x div 10 ^ (n - k) + 1])"

definition closer :: "int \<Rightarrow> nat \<Rightarrow> int \<times> nat \<Rightarrow> int \<times> nat \<Rightarrow> bool" where
  "closer x k a b =
     (\<bar>fst a * 10 ^ (snd a - k) - x\<bar> < \<bar>fst b * 10 ^ (snd b - k) - x\<bar>
      \<or> (\<bar>fst a * 10 ^ (snd a - k) - x\<bar> = \<bar>fst b * 10 ^ (snd b - k) - x\<bar> \<and> even (fst a)))"

fun closest :: "int \<Rightarrow> nat \<Rightarrow> int \<times> nat \<Rightarrow> (int \<times> nat) list \<Rightarrow> int \<times> nat" where
  "closest x k c [] = c"
| "closest x k c (d # ds) = closest x k (if closer x k c d then c else d) ds"

text \<open>The digits \<open>s\<close>, their number \<open>k\<close> and the position \<open>n\<close> of the point; 17 digits always do.\<close>

fun shortest_digits :: "int \<Rightarrow> nat \<Rightarrow> nat \<Rightarrow> nat \<Rightarrow> int \<times> nat \<times> nat" where
  "shortest_digits x n k 0 = (x, n, n)"
| "shortest_digits x n k (Suc fuel) =
     (case digit_candidates x k n @ digit_candidates x k (Suc n) of
        [] \<Rightarrow> shortest_digits x n (Suc k) fuel
      | c # cs \<Rightarrow> (fst (closest x k c cs), k, snd (closest x k c cs)))"

definition Number_toString :: "int \<Rightarrow> string" where
  "Number_toString i =
     (let x = \<bar>i\<bar>; sign = (if i < 0 then ''-'' else []) in
      if x < 2 ^ 53 then sign @ show_digits x
      else (case shortest_digits x (length (show_digits x)) 1 17 of
              (s, k, n) \<Rightarrow>
                if n \<le> 21 then sign @ show_digits s @ replicate (n - k) CHR ''0''
                else sign @ (if k = 1 then show_digits s
                             else take 1 (show_digits s) @ ''.'' @ drop 1 (show_digits s))
                     @ ''e+'' @ show_digits (int n - 1)))"

definition join :: "string \<Rightarrow> string list \<Rightarrow> string" where
  "join sep xs = (case xs of [] \<Rightarrow> [] | y # ys \<Rightarrow> foldl (\<lambda>acc s. acc @ sep @ s) y ys)"

text \<open>Template-literal conversion \<open>`${v}`\<close> of a decoded value.\<close>

fun to_string :: "json \<Rightarrow> string" and to_string_elems :: "json list \<Rightarrow> string list" where
  "to_string JNull = ''null''"
| "to_string (JBool b) = (if b then ''true'' else ''false'')"
| "to_string (JNum n) = Number_toString n"
| "to_string (JStr s) = s"
| "to_string (JArr xs) = join '','' (to_string_elems xs)"
| "to_string (JObj kvs) = ''[object Object]''"
| "to_string_elems [] = []"
| "to_string_elems (x # xs) = (if x = JNull then [] else to_string x) # to_string_elems xs"

section \<open>graph-client.ts\<close>

record request =
  rq_url :: string
  rq_method :: string
  rq_headers :: "(string \<times> string) list"
  rq_body :: "jstext option"

record response =
  status :: nat
  statusText :: string
  body :: string
  etag :: "string option"

definition ok :: "response \<Rightarrow> bool" where
  "ok r = (200 \<le> status r \<and> status r \<le> 299)"

record GraphRequestOptions =
  o_headers :: "(string \<times> string) list option"
  o_method :: "string option"
  o_body :: "jstext option"
  o_rawResponse :: bool
  o_includeHeaders :: bool
  o_excludeResponse :: bool
  o_accessToken :: "string option"
  o_refreshToken :: "string option"
  o_queryParams :: "(string \<times> string) list option"

definition no_options :: GraphRequestOptions where
  "no_options = \<lparr> o_headers = None, o_method = None, o_body = None, o_rawResponse = False,
     o_includeHeaders = False, o_excludeResponse = False, o_accessToken = None,
     o_refreshToken = None, o_queryParams = None \<rparr>"

record token_response =
  access_token :: string
  refresh_token :: "string option"

datatype output_format = JsonFormat | ToonFormat

text \<open>The parts of a parsed \<open>URL\<close> the program reads.\<close>

record url =
  pathname :: string
  search :: string
  searchParams :: "(string \<times> string) list"

text \<open>
  What the client runs against: the network (\<open>fetch\<close>, which sees how many requests were
  sent before), the auth manager, the process environment, the token endpoint of
  \<open>lib/microsoft-auth\<close>, the runtime's \<open>JSON.parse\<close> on raw characters, the TOON
  encoder and the \<open>URL\<close> constructor (\<open>None\<close> when they throw), the working directory
  (an absolute path) and the file system calls of \<open>fs\<close> (\<open>Some\<close> the error when they throw).
\<close>

record env =
  fetch :: "nat \<Rightarrow> request \<Rightarrow> response result"
  authManager_getToken :: "string option result"
  MS365_MCP_TENANT_ID :: "string option"
  MS365_MCP_CLIENT_ID :: "string option"
  MS365_MCP_CLIENT_SECRET :: "string option"
  lib_refreshAccessToken :: "string \<Rightarrow> string \<Rightarrow> string \<Rightarrow> string \<Rightarrow> token_response result"
  JSON_parse :: "string \<Rightarrow> json option"
  toonEncode :: "json \<Rightarrow> string option"
  URL_parse :: "string \<Rightarrow> url option"
  cwd :: string
  MS365_MCP_DOWNLOAD_DIR :: "string option"
  existsSync :: "string \<Rightarrow> bool"
  mkdirSync :: "string \<Rightarrow> error option"
  writeFileSync :: "string \<Rightarrow> string \<Rightarrow> error option"

text \<open>
  The mutable state: the two token fields of the \<open>GraphClient\<close>, and the trace of the
  effects (requests sent, refresh calls made with their refresh token, calls that write
  to the file system).
\<close>

datatype fs_op = Mkdir string | WriteFile string string

record world =
  accessToken :: "string option"
  refreshToken :: "string option"
  outputFormat :: output_format
  sent :: "request list"
  refreshed :: "string list"
  fs_log :: "fs_op list"

definition setOAuthTokens :: "string \<Rightarrow> string option \<Rightarrow> world \<Rightarrow> world" where
  "setOAuthTokens a r w = w\<lparr>accessToken := Some a, refreshToken := or_str r None\<rparr>"

definition mk_request :: "string \<Rightarrow> string \<Rightarrow> GraphRequestOptions \<Rightarrow> request" where
  "mk_request endpoint token opts =
     \<lparr> rq_url = ''https://graph.microsoft.com/v1.0'' @ endpoint,
       rq_method = the (or_str (o_method opts) (Some ''GET'')),
       rq_headers = obj_spread
         [(''Authorization'', ''Bearer '' @ token), (''Content-Type'', ''application/json'')]
         (case o_headers opts of None \<Rightarrow> [] | Some hs \<Rightarrow> hs),
       rq_body = o_body opts \<rparr>"

definition performRequest ::
  "env \<Rightarrow> string \<Rightarrow> string \<Rightarrow> GraphRequestOptions \<Rightarrow> world \<Rightarrow> response result \<times> world" where
  "performRequest e endpoint token opts w =
     (let rq = mk_request endpoint token opts
      in (fetch e (length (sent w)) rq, w\<lparr>sent := sent w @ [rq]\<rparr>))"

definition refreshAccessToken :: "env \<Rightarrow> string \<Rightarrow> world \<Rightarrow> unit result \<times> world" where
  "refreshAccessToken e rt w =
     (let tenantId = the (or_str (MS365_MCP_TENANT_ID e) (Some ''common''));
          clientId = the (or_str (MS365_MCP_CLIENT_ID e) (Some ''084a3e9f-a9f4-43f7-89f9-d229cf97853e''))
      in if \<not> truthy_str (MS365_MCP_CLIENT_SECRET e)
         then (Inl ''MS365_MCP_CLIENT_SECRET not configured'', w)
         else
           (let w1 = w\<lparr>refreshed := refreshed w @ [rt]\<rparr> in
            case lib_refreshAccessToken e rt clientId (the (MS365_MCP_CLIENT_SECRET e)) tenantId of
              Inl err \<Rightarrow> (Inl err, w1)
            | Inr resp \<Rightarrow>
                (Inr (),
                 (if truthy_str (refresh_token resp)
                  then w1\<lparr>accessToken := Some (access_token resp), refreshToken := refresh_token resp\<rparr>
                  else w1\<lparr>accessToken := Some (access_token resp)\<rparr>))))"

definition api_error :: "response \<Rightarrow> string" where
  "api_error r = ''Microsoft Graph API error: '' @ show_nat (status r) @ '' '' @ statusText r
                 @ '' - '' @ body r"

definition scope_error :: "response \<Rightarrow> string" where
  "scope_error r = ''Microsoft Graph API scope error: '' @ show_nat (status r) @ '' ''
                 @ statusText r @ '' - '' @ body r
                 @ ''. This tool requires organization mode. Please restart with --org-mode flag.''"

text \<open>
  The part \<open>makeRequest\<close> and \<open>downloadBinary\<close> have word for word in common: choose
  the tokens, send, on 401 with a refresh token refresh and send again, then classify
  the status. The result is the response whose body the caller goes on to read.
\<close>

definition chooseAccessToken :: "env \<Rightarrow> GraphRequestOptions \<Rightarrow> world \<Rightarrow> string option result" where
  "chooseAccessToken e opts w =
     (if truthy_str (or_str (o_accessToken opts) (accessToken w))
      then Inr (or_str (o_accessToken opts) (accessToken w))
      else authManager_getToken e)"

definition checkStatus :: "response \<Rightarrow> response result" where
  "checkStatus r =
     (if status r = 403 then
        (if str_includes (body r) ''scope'' \<or> str_includes (body r) ''permission''
         then Inl (scope_error r) else Inl (api_error r))
      else if \<not> ok r then Inl (api_error r)
      else Inr r)"

definition requestWithRefresh ::
  "env \<Rightarrow> string \<Rightarrow> GraphRequestOptions \<Rightarrow> world \<Rightarrow> response result \<times> world" where
  "requestWithRefresh e endpoint opts w =
     (case chooseAccessToken e opts w of
        Inl err \<Rightarrow> (Inl err, w)
      | Inr tok \<Rightarrow>
         (let rt = or_str (o_refreshToken opts) (refreshToken w) in
          if \<not> truthy_str tok then (Inl ''No access token available'', w)
          else
            (case performRequest e endpoint (the tok) opts w of
               (Inl err, w1) \<Rightarrow> (Inl err, w1)
             | (Inr r1, w1) \<Rightarrow>
                 if status r1 = 401 \<and> truthy_str rt then
                   (case refreshAccessToken e (the rt) w1 of
                      (Inl err, w2) \<Rightarrow> (Inl err, w2)
                    | (Inr u, w2) \<Rightarrow>
                        (let at2 = or_str (accessToken w2) tok in
                         if \<not> truthy_str at2 then (Inl ''Failed to refresh access token'', w2)
                         else
                           (case performRequest e endpoint (the at2) opts w2 of
                              (Inl err, w3) \<Rightarrow> (Inl err, w3)
                            | (Inr r2, w3) \<Rightarrow> (checkStatus r2, w3))))
                 else (checkStatus r1, w1))))"

text \<open>The tail of \<open>makeRequest\<close>: decode the body and, on request, add the entity tag.\<close>

definition decodeBody :: "env \<Rightarrow> GraphRequestOptions \<Rightarrow> response \<Rightarrow> json" where
  "decodeBody e opts r =
     (let result =
        (if body r = [] then JObj [(''message'', JStr ''OK!'')]
         else (case JSON_parse e (body r) of
                 Some j \<Rightarrow> j
               | None \<Rightarrow> JObj [(''message'', JStr ''OK!''), (''rawResponse'', JStr (body r))]))
      in if o_includeHeaders opts then
           (case result of
              JObj kvs \<Rightarrow>
                JObj (obj_define kvs ''_etag''
                        (JStr (the (or_str (etag r) (Some ''no-etag-found'')))))
            | _ \<Rightarrow> result)
         else result)"

definition makeRequest ::
  "env \<Rightarrow> string \<Rightarrow> GraphRequestOptions \<Rightarrow> world \<Rightarrow> json result \<times> world" where
  "makeRequest e endpoint opts w =
     (case requestWithRefresh e endpoint opts w of
        (Inl err, w') \<Rightarrow> (Inl err, w')
      | (Inr r, w') \<Rightarrow> (Inr (decodeBody e opts r), w'))"

text \<open>\<open>downloadBinary\<close> returns the bytes of the body.\<close>

definition downloadBinary ::
  "env \<Rightarrow> string \<Rightarrow> GraphRequestOptions \<Rightarrow> world \<Rightarrow> string result \<times> world" where
  "downloadBinary e endpoint opts w =
     (case requestWithRefresh e endpoint opts w of
        (Inl err, w') \<Rightarrow> (Inl err, w')
      | (Inr r, w') \<Rightarrow> (Inr (body r), w'))"

subsection \<open>Shaping the result\<close>

text \<open>
  The result of a tool call: the text of its one content item, the side-channel
  metadata \<open>_meta\<close> and the error flag. The client's \<open>McpResponse\<close> adds the decoded
  payload.
\<close>

record CallToolResult =
  content_text :: jstext
  meta :: "(string \<times> json) list option"
  isError :: bool

record McpResponse = CallToolResult +
  structuredContent :: json

definition serializeData :: "env \<Rightarrow> json \<Rightarrow> output_format \<Rightarrow> jstext" where
  "serializeData e d fmt =
     (case fmt of
        ToonFormat \<Rightarrow> (case toonEncode e d of Some s \<Rightarrow> Chars s | None \<Rightarrow> Json d)
      | JsonFormat \<Rightarrow> Json d)"

fun makeStructured :: "json \<Rightarrow> json" where
  "makeStructured (JObj kvs) = JObj kvs"
| "makeStructured v = JObj [(''value'', v)]"

text \<open>
  \<open>removeODataProps\<close>: in an object every key that starts with \<open>@odata.\<close> is deleted
  and the other values are visited; an array is visited element by element.
\<close>

fun removeODataProps :: "json \<Rightarrow> json"
  and removeODataProps_entries :: "(string \<times> json) list \<Rightarrow> (string \<times> json) list"
  and removeODataProps_elems :: "json list \<Rightarrow> json list" where
  "removeODataProps (JObj kvs) = JObj (removeODataProps_entries kvs)"
| "removeODataProps (JArr xs) = JArr (removeODataProps_elems xs)"
| "removeODataProps JNull = JNull"
| "removeODataProps (JBool b) = JBool b"
| "removeODataProps (JNum n) = JNum n"
| "removeODataProps (JStr s) = JStr s"
| "removeODataProps_entries [] = []"
| "removeODataProps_entries (kv # kvs) =
     (if startsWith (fst kv) ''@odata.'' then removeODataProps_entries kvs
      else (fst kv, removeODataProps (snd kv)) # removeODataProps_entries kvs)"
| "removeODataProps_elems [] = []"
| "removeODataProps_elems (x # xs) = removeODataProps x # removeODataProps_elems xs"

definition success_only :: json where
  "success_only = JObj [(''success'', JBool True)]"

definition respond :: "env \<Rightarrow> world \<Rightarrow> json \<Rightarrow> (string \<times> json) list option \<Rightarrow> McpResponse" where
  "respond e w structured m =
     \<lparr> content_text = serializeData e structured (outputFormat w), meta = m, isError = False,
       structuredContent = structured \<rparr>"

definition has_headers_key :: "json \<Rightarrow> bool" where
  "has_headers_key d = (case d of JObj kvs \<Rightarrow> map_of kvs ''_headers'' \<noteq> None | _ \<Rightarrow> False)"

definition formatJsonResponse :: "env \<Rightarrow> world \<Rightarrow> json \<Rightarrow> bool \<Rightarrow> bool \<Rightarrow> McpResponse" where
  "formatJsonResponse e w d rawResponse excludeResponse =
     (if excludeResponse then respond e w success_only None
      else if has_headers_key d then
        (let m0 = (if truthy_opt (get_prop d ''_etag'')
                   then [(''etag'', the (get_prop d ''_etag''))] else []);
             m = (if truthy_opt (get_prop d ''_headers'')
                  then obj_set m0 ''headers'' (the (get_prop d ''_headers'')) else m0)
         in if rawResponse then
              respond e w (makeStructured (case get_prop d ''data'' of
                                             Some x \<Rightarrow> x | None \<Rightarrow> success_only)) (Some m)
            else if get_prop d ''data'' = None \<or> get_prop d ''data'' = Some JNull then
              respond e w success_only (Some m)
            else
              respond e w (removeODataProps (makeStructured (the (get_prop d ''data'')))) (Some m))
      else if rawResponse then respond e w (makeStructured d) None
      else if d = JNull then respond e w success_only None
      else respond e w (removeODataProps (makeStructured d)) None)"

definition graphRequest ::
  "env \<Rightarrow> string \<Rightarrow> GraphRequestOptions \<Rightarrow> world \<Rightarrow> McpResponse \<times> world" where
  "graphRequest e endpoint opts w =
     (case makeRequest e endpoint opts w of
        (Inl err, w') \<Rightarrow>
          (\<lparr> content_text = Json (JObj [(''error'', JStr err)]), meta = None, isError = True,
             structuredContent = JObj [(''error'', JStr err)] \<rparr>, w')
      | (Inr result, w') \<Rightarrow>
          (formatJsonResponse e w' result (o_rawResponse opts) (o_excludeResponse opts), w'))"

section \<open>Paths and URI components\<close>

text \<open>\<open>s.split(c)\<close>: the pieces between the separators, empty pieces included.\<close>

fun split_on :: "char \<Rightarrow> string \<Rightarrow> string list" where
  "split_on c [] = [[]]"
| "split_on c (x # xs) =
     (if x = c then [] # split_on c xs
      else (case split_on c xs of s # ss \<Rightarrow> (x # s) # ss | [] \<Rightarrow> [[x]]))"

text \<open>
  POSIX \<open>path.resolve\<close>. The arguments are taken from the right until one is absolute
  (the working directory comes last); the joined path is then normalised: empty and
  \<open>.\<close> segments go, \<open>..\<close> removes the segment before it and is dropped at the root.
\<close>

definition normalize_segments :: "string list \<Rightarrow> string list" where
  "normalize_segments segs =
     foldl (\<lambda>acc s. if s = [] \<or> s = ''.'' then acc
                     else if s = ''..'' then butlast acc
                     else acc @ [s]) [] segs"

fun resolve_join :: "string \<Rightarrow> string list \<Rightarrow> string \<Rightarrow> string" where
  "resolve_join wd [] acc = wd @ ''/'' @ acc"
| "resolve_join wd (p # ps) acc =
     (if p = [] then resolve_join wd ps acc
      else if hd p = CHR ''/'' then p @ ''/'' @ acc
      else resolve_join wd ps (p @ ''/'' @ acc))"

definition path_resolve :: "string \<Rightarrow> string list \<Rightarrow> string" where
  "path_resolve wd args =
     CHR ''/'' # join ''/'' (normalize_segments (split_on CHR ''/'' (resolve_join wd (rev args) [])))"

text \<open>\<open>path.dirname\<close> on the absolute, normalised paths that \<open>path.resolve\<close> returns.\<close>

definition path_dirname :: "string \<Rightarrow> string" where
  "path_dirname p = CHR ''/'' # join ''/'' (butlast (normalize_segments (split_on CHR ''/'' p)))"

text \<open>
  \<open>encodeURIComponent\<close>: letters, digits and \<open>- _ . ! ~ * ' ( )\<close> stay, every other
  character becomes \<open>%XX\<close> for each byte of its UTF-8 encoding, which has one byte below
  128 and two bytes from there on.
\<close>

definition hex_digit :: "nat \<Rightarrow> char" where
  "hex_digit d = (if d < 10 then char_of (48 + d) else char_of (55 + d))"

definition uri_unreserved :: "char \<Rightarrow> bool" where
  "uri_unreserved c =
     (let n = (of_char c :: nat) in
        (65 \<le> n \<and> n \<le> 90) \<or> (97 \<le> n \<and> n \<le> 122) \<or> (48 \<le> n \<and> n \<le> 57)
        \<or> c \<in> set ''-_.!~*'' \<or> n = 39 \<or> c \<in> set ''()'')"

definition percent_byte :: "nat \<Rightarrow> string" where
  "percent_byte b = [CHR ''%'', hex_digit (b div 16), hex_digit (b mod 16)]"

definition encodeURIComponent :: "string \<Rightarrow> string" where
  "encodeURIComponent s =
     concat (map (\<lambda>c. if uri_unreserved c then [c]
                       else if (of_char c :: nat) < 128 then percent_byte (of_char c)
                       else percent_byte (192 + of_char c div 64)
                            @ percent_byte (128 + of_char c mod 64)) s)"

section \<open>graph-tools.ts: the download-file-to-local handler\<close>

definition error_result :: "string \<Rightarrow> CallToolResult" where
  "error_result msg =
     \<lparr> content_text = Json (JObj [(''error'', JStr msg)]), meta = None, isError = True \<rparr>"

definition download_file_to_local ::
  "env \<Rightarrow> string \<Rightarrow> string \<Rightarrow> string \<Rightarrow> bool \<Rightarrow> world \<Rightarrow> CallToolResult \<times> world" where
  "download_file_to_local e driveId driveItemId localPath overwrite w =
     (let baseDir = the (or_str (MS365_MCP_DOWNLOAD_DIR e)
                           (Some (path_resolve (cwd e) [cwd e, ''downloads''])));
          resolvedBase = path_resolve (cwd e) [baseDir];
          targetPath = path_resolve (cwd e) [resolvedBase, localPath];
          failed = (\<lambda>msg. error_result (''Failed to download file to local path: '' @ msg))
      in if \<not> startsWith targetPath resolvedBase then
           (error_result (''Invalid localPath: resolved path escapes download base directory (''
                          @ resolvedBase @ '').''), w)
         else if \<not> overwrite \<and> existsSync e targetPath then
           (error_result (''File already exists at '' @ targetPath
                          @ ''. Set overwrite=true to replace it.''), w)
         else
           (let w1 = w\<lparr>fs_log := fs_log w @ [Mkdir (path_dirname targetPath)]\<rparr> in
            case mkdirSync e (path_dirname targetPath) of
              Some err \<Rightarrow> (failed err, w1)
            | None \<Rightarrow>
               (let endpoint = ''/drives/'' @ encodeURIComponent driveId @ ''/items/''
                               @ encodeURIComponent driveItemId @ ''/content'' in
                case downloadBinary e endpoint (no_options\<lparr>o_method := Some ''GET''\<rparr>) w1 of
                  (Inl err, w2) \<Rightarrow> (failed err, w2)
                | (Inr buffer, w2) \<Rightarrow>
                   (let w3 = w2\<lparr>fs_log := fs_log w2 @ [WriteFile targetPath buffer]\<rparr> in
                    case writeFileSync e targetPath buffer of
                      Some err \<Rightarrow> (failed err, w3)
                    | None \<Rightarrow>
                       (\<lparr> content_text = Json (JObj
                             [(''success'', JBool True), (''savedAs'', JStr targetPath),
                              (''size'', JNum (int (length buffer))), (''driveId'', JStr driveId),
                              (''driveItemId'', JStr driveItemId), (''baseDir'', JStr resolvedBase)]),
                           meta = None, isError = False \<rparr>, w3)))))"

text \<open>
  The containment the handler is there to enforce, segment by segment: the target is the
  base directory or lies below it.
\<close>

definition within_directory :: "string \<Rightarrow> string \<Rightarrow> bool" where
  "within_directory base target =
     prefix (normalize_segments (split_on CHR ''/'' base))
            (normalize_segments (split_on CHR ''/'' target))"

section \<open>graph-tools.ts: executeGraphTool\<close>

text \<open>
  \<open>toLowerCase\<close> and \<open>toUpperCase\<close>. The capital letters are \<open>A\<close> to \<open>Z\<close> and the code
  units 192 to 222 without the multiplication sign 215; the small letter of each is 32
  further on. The sharp s (223) is \<open>SS\<close> in upper case. The micro sign (181) and the
  y with diaeresis (255) have their upper-case forms beyond the code units held here and
  are kept.
\<close>

definition lower_char :: "char \<Rightarrow> char" where
  "lower_char c =
     (let n = (of_char c :: nat) in
      if (65 \<le> n \<and> n \<le> 90) \<or> (192 \<le> n \<and> n \<le> 222 \<and> n \<noteq> 215) then char_of (n + 32) else c)"

definition upper_char :: "char \<Rightarrow> string" where
  "upper_char c =
     (let n = (of_char c :: nat) in
      if (97 \<le> n \<and> n \<le> 122) \<or> (224 \<le> n \<and> n \<le> 254 \<and> n \<noteq> 247) then [char_of (n - 32)]
      else if n = 223 then ''SS''
      else [c])"

definition toLowerCase :: "string \<Rightarrow> string" where
  "toLowerCase s = map lower_char s"

definition toUpperCase :: "string \<Rightarrow> string" where
  "toUpperCase s = concat (map upper_char s)"

datatype param_type = Path | Query | Body | Header

text \<open>
  A parameter definition of the endpoint catalog; \<open>p_schema\<close> is the validator's
  \<open>safeParse(...).success\<close>.
\<close>

record param_def =
  p_name :: string
  p_type :: param_type
  p_schema :: "(json \<Rightarrow> bool) option"

record tool =
  t_alias :: string
  t_method :: string
  t_path :: string
  t_parameters :: "param_def list"
  t_errors :: "string list"

record EndpointConfig =
  toolName :: string
  scopes :: "string list option"
  workScopes :: "string list option"
  returnDownloadUrl :: bool
  supportsTimezone :: bool

text \<open>What the binding loop builds up: \<open>path\<close>, \<open>queryParams\<close>, \<open>headers\<close> and \<open>body\<close>.\<close>

record binding =
  b_path :: string
  b_queryParams :: "(string \<times> string) list"
  b_headers :: "(string \<times> string) list"
  b_body :: json

definition controlParams :: "string list" where
  "controlParams = [''fetchAllPages'', ''includeHeaders'', ''excludeResponse'', ''timezone'']"

definition odataParams :: "string list" where
  "odataParams = [''filter'', ''select'', ''expand'', ''orderby'', ''skip'', ''top'', ''count'',
                  ''search'', ''format'']"

definition normalizedParamName :: "string \<Rightarrow> string" where
  "normalizedParamName paramName = (if startsWith paramName ''$'' then drop 1 paramName else paramName)"

definition isOdataParam :: "string \<Rightarrow> bool" where
  "isOdataParam paramName = (toLowerCase (normalizedParamName paramName) \<in> set odataParams)"

definition fixedParamName :: "string \<Rightarrow> string" where
  "fixedParamName paramName =
     (if isOdataParam paramName then ''$'' @ toLowerCase (normalizedParamName paramName)
      else paramName)"

definition findParamDef :: "param_def list \<Rightarrow> string \<Rightarrow> param_def option" where
  "findParamDef defs paramName =
     find (\<lambda>p. p_name p = paramName
                \<or> (isOdataParam paramName \<and> p_name p = normalizedParamName paramName)) defs"

definition bindPath :: "string \<Rightarrow> string \<Rightarrow> json \<Rightarrow> string" where
  "bindPath path paramName paramValue =
     replace_first
       (replace_first path (''{'' @ paramName @ ''}'') (encodeURIComponent (to_string paramValue)))
       ('':'' @ paramName) (encodeURIComponent (to_string paramValue))"

definition bindBody :: "param_def \<Rightarrow> string \<Rightarrow> json \<Rightarrow> json" where
  "bindBody d paramName paramValue =
     (case p_schema d of
        Some valid \<Rightarrow>
          if \<not> valid paramValue then
            (if valid (JObj [(paramName, paramValue)]) then JObj [(paramName, paramValue)]
             else paramValue)
          else paramValue
      | None \<Rightarrow> paramValue)"

text \<open>One round of the loop over \<open>Object.entries(params)\<close>.\<close>

definition bindParam :: "param_def list \<Rightarrow> binding \<Rightarrow> string \<times> json \<Rightarrow> binding" where
  "bindParam defs b entry =
     (let paramName = fst entry; paramValue = snd entry in
      if paramName \<in> set controlParams then b
      else
        (case findParamDef defs paramName of
           Some d \<Rightarrow>
             (case p_type d of
                Path \<Rightarrow> b\<lparr>b_path := bindPath (b_path b) paramName paramValue\<rparr>
              | Query \<Rightarrow> b\<lparr>b_queryParams :=
                            obj_set (b_queryParams b) (fixedParamName paramName) (to_string paramValue)\<rparr>
              | Body \<Rightarrow> b\<lparr>b_body := bindBody d paramName paramValue\<rparr>
              | Header \<Rightarrow> b\<lparr>b_headers :=
                             obj_set (b_headers b) (fixedParamName paramName) (to_string paramValue)\<rparr>)
         | None \<Rightarrow> if paramName = ''body'' then b\<lparr>b_body := paramValue\<rparr> else b))"

definition bindParams :: "tool \<Rightarrow> (string \<times> json) list \<Rightarrow> binding" where
  "bindParams t params =
     foldl (bindParam (t_parameters t))
       \<lparr> b_path = t_path t, b_queryParams = [], b_headers = [], b_body = JNull \<rparr> params"

definition queryString :: "(string \<times> string) list \<Rightarrow> string" where
  "queryString qs =
     join ''&'' (map (\<lambda>kv. encodeURIComponent (fst kv) @ ''='' @ encodeURIComponent (snd kv)) qs)"

text \<open>
  From the bound parameters to the endpoint and the options handed to the client
  (the code up to the call of \<open>graphRequest\<close>).
\<close>

definition buildRequest ::
  "tool \<Rightarrow> EndpointConfig option \<Rightarrow> (string \<times> json) list \<Rightarrow> string \<times> GraphRequestOptions" where
  \<open>buildRequest t config params =
     (let b = bindParams t params;
          headers = (if (case config of Some c \<Rightarrow> supportsTimezone c | None \<Rightarrow> False)
                        \<and> truthy_opt (map_of params ''timezone'')
                     then obj_set (b_headers b) ''Prefer''
                            (''outlook.timezone="'' @ to_string (the (map_of params ''timezone'')) @ ''"'')
                     else b_headers b);
          path1 = (if b_queryParams b \<noteq> []
                   then b_path b @ (if str_includes (b_path b) ''?'' then ''&'' else ''?'')
                        @ queryString (b_queryParams b)
                   else b_path b);
          method = toUpperCase (t_method t);
          body = (if method \<noteq> ''GET'' \<and> truthy (b_body b)
                  then Some (case b_body b of JStr s \<Rightarrow> Chars s | j \<Rightarrow> Json j)
                  else None);
          isProbablyMediaContent =
            (''Retrieved media content'' \<in> set (t_errors t) \<or> endsWith path1 ''/content'');
          dropContent = ((case config of Some c \<Rightarrow> returnDownloadUrl c | None \<Rightarrow> False)
                         \<and> endsWith path1 ''/content'');
          path2 = (if dropContent then take (length path1 - length ''/content'') path1 else path1)
      in (path2,
          no_options
            \<lparr> o_method := Some method, o_headers := Some headers, o_body := body,
              o_rawResponse := (\<not> dropContent \<and> isProbablyMediaContent),
              o_includeHeaders := (map_of params ''includeHeaders'' = Some (JBool True)),
              o_excludeResponse := (map_of params ''excludeResponse'' = Some (JBool True)) \<rparr>))\<close>

subsection \<open>Following the continuation cursor\<close>

definition text_truthy :: "jstext \<Rightarrow> bool" where
  "text_truthy t = (case t of Chars s \<Rightarrow> s \<noteq> [] | Json j \<Rightarrow> True)"

text \<open>\<open>JSON.parse\<close> of a text; \<open>None\<close> when it throws.\<close>

definition parse_text :: "env \<Rightarrow> jstext \<Rightarrow> json option" where
  "parse_text e t = (case t of Chars s \<Rightarrow> JSON_parse e s | Json j \<Rightarrow> Some j)"

text \<open>
  \<open>allItems.concat(page)\<close>: an array grows, a string is concatenated with the page's
  string form, any other value has no \<open>concat\<close> and the call throws.
\<close>

fun js_concat :: "json \<Rightarrow> json list \<Rightarrow> json option" where
  "js_concat (JArr xs) ys = Some (JArr (xs @ ys))"
| "js_concat (JStr s) ys = Some (JStr (s @ to_string (JArr ys)))"
| "js_concat _ ys = None"

text \<open>
  The step \<open>if (value && Array.isArray(value)) allItems = allItems.concat(value)\<close>;
  \<open>None\<close> when \<open>concat\<close> throws.
\<close>

definition concat_page :: "json \<Rightarrow> json option \<Rightarrow> json option" where
  "concat_page allItems v =
     (case v of Some (JArr page) \<Rightarrow> js_concat allItems page | _ \<Rightarrow> Some allItems)"

text \<open>\<open>allItems.length\<close>; \<open>None\<close> is \<open>undefined\<close>.\<close>

fun js_length :: "json \<Rightarrow> json option" where
  "js_length (JArr xs) = Some (JNum (int (length xs)))"
| "js_length (JStr s) = Some (JNum (int (length s)))"
| "js_length (JObj kvs) = map_of kvs ''length''"
| "js_length _ = None"

text \<open>
  The \<open>while\<close> loop of the pagination block. The result is \<open>None\<close> when something in
  the loop throws (an invalid cursor, a text that does not parse, a property read on
  \<open>null\<close>, a \<open>concat\<close> that does not exist), which the surrounding \<open>try\<close> catches;
  otherwise the accumulated items and the page count.
\<close>

function followPages ::
  "env \<Rightarrow> GraphRequestOptions \<Rightarrow> json \<Rightarrow> json option \<Rightarrow> nat \<Rightarrow> world
     \<Rightarrow> (json \<times> nat) option \<times> world" where
  "followPages e opts allItems nextLink pageCount w =
     (if truthy_opt nextLink \<and> pageCount < 100 then
        (case URL_parse e (to_string (the nextLink)) of
           None \<Rightarrow> (None, w)
         | Some u \<Rightarrow>
            (case graphRequest e (replace_first (pathname u) ''/v1.0'' [])
                    (opts\<lparr>o_queryParams :=
                            Some (foldl (\<lambda>acc kv. obj_set acc (fst kv) (snd kv)) [] (searchParams u))\<rparr>)
                    w of
               (nextResponse, w1) \<Rightarrow>
                 if text_truthy (content_text nextResponse) then
                   (case parse_text e (content_text nextResponse) of
                      None \<Rightarrow> (None, w1)
                    | Some nextJson \<Rightarrow>
                        if nextJson = JNull then (None, w1)
                        else
                          (case concat_page allItems (get_prop nextJson ''value'') of
                             None \<Rightarrow> (None, w1)
                           | Some items \<Rightarrow>
                               followPages e opts items (get_prop nextJson ''@odata.nextLink'')
                                 (Suc pageCount) w1))
                 else (Some (allItems, pageCount), w1)))
      else (Some (allItems, pageCount), w))"
  by pat_completeness auto
termination
  by (relation "measure (\<lambda>(e, opts, allItems, nextLink, pageCount, w). 100 - pageCount)") auto

declare followPages.simps [simp del]

text \<open>The pagination block: the first page, the loop, and the rewritten text.\<close>

definition fetchAllPages ::
  "env \<Rightarrow> GraphRequestOptions \<Rightarrow> McpResponse \<Rightarrow> world \<Rightarrow> jstext \<times> world" where
  "fetchAllPages e opts response w =
     (case parse_text e (content_text response) of
        Some (JObj kvs) \<Rightarrow>
          (case followPages e opts
                  (if truthy_opt (map_of kvs ''value'') then the (map_of kvs ''value'') else JArr [])
                  (map_of kvs ''@odata.nextLink'') 1 w of
             (None, w') \<Rightarrow> (content_text response, w')
           | (Some (allItems, pageCount), w') \<Rightarrow>
               (let c1 = obj_set kvs ''value'' allItems;
                    c2 = (if truthy_opt (map_of c1 ''@odata.count'')
                          then (case js_length allItems of
                                  Some n \<Rightarrow> obj_set c1 ''@odata.count'' n
                                | None \<Rightarrow> obj_delete c1 ''@odata.count'')
                          else c1)
                in (Json (JObj (obj_delete c2 ''@odata.nextLink'')), w')))
      | Some (JArr xs) \<Rightarrow> (Json (JArr xs), w)
      | _ \<Rightarrow> (content_text response, w))"

definition executeGraphTool ::
  "env \<Rightarrow> tool \<Rightarrow> EndpointConfig option \<Rightarrow> (string \<times> json) list \<Rightarrow> world
     \<Rightarrow> CallToolResult \<times> world" where
  "executeGraphTool e t config params w =
     (case buildRequest t config params of
        (path, opts) \<Rightarrow>
          (case graphRequest e path opts w of
             (response, w1) \<Rightarrow>
               (case (if map_of params ''fetchAllPages'' = Some (JBool True)
                         \<and> text_truthy (content_text response)
                      then fetchAllPages e opts response w1
                      else (content_text response, w1)) of
                  (txt, w2) \<Rightarrow>
                    (\<lparr> content_text = txt, meta = meta response, isError = isError response \<rparr>, w2))))"

section \<open>graph-tools.ts: the tree collector\<close>

text \<open>A drive item as a child listing returns it, with the fields the collector reads.\<close>

record driveItem =
  i_id :: "string option"
  i_name :: "string option"
  i_folder :: bool
  i_webUrl :: "string option"
  i_size :: "int option"
  i_mimeType :: "string option"
  i_createdDateTime :: "string option"
  i_fsCreatedDateTime :: "string option"
  i_lastModifiedDateTime :: "string option"
  i_fsLastModifiedDateTime :: "string option"

datatype SharePointFileNode = FileNode
  (n_siteId: string) (n_driveId: string) (n_driveItemId: "string option") (n_name: string)
  (n_webUrl: "string option") (n_size: "int option") (n_isFolder: bool)
  (n_mimeType: "string option") (n_createdDateTime: "string option")
  (n_lastModifiedDateTime: "string option") (n_path: string)
  (n_children: "SharePointFileNode list option")

record SharePointDriveInfo =
  driveId :: string
  driveName :: string
  rootItemId :: string

datatype structure_kind = Flat | Tree

text \<open>
  A number as a tool parameter holds it (\<open>z.number()\<close>): a double, given by its value, an
  infinity or \<open>NaN\<close>; with \<open>Math.min\<close> and \<open><\<close> on them.
\<close>

datatype number = Num rat | PosInfinity | NegInfinity | NaN

fun Math_min :: "number \<Rightarrow> number \<Rightarrow> number" where
  "Math_min NaN y = NaN"
| "Math_min x NaN = NaN"
| "Math_min NegInfinity y = NegInfinity"
| "Math_min x NegInfinity = NegInfinity"
| "Math_min PosInfinity y = y"
| "Math_min x PosInfinity = x"
| "Math_min (Num a) (Num b) = Num (min a b)"

fun less_number :: "number \<Rightarrow> number \<Rightarrow> bool" where
  "less_number NaN y = False"
| "less_number x NaN = False"
| "less_number PosInfinity y = False"
| "less_number x NegInfinity = False"
| "less_number NegInfinity y = True"
| "less_number x PosInfinity = True"
| "less_number (Num a) (Num b) = (a < b)"

record ListSharePointSiteFilesOptions =
  siteId :: string
  opt_driveId :: "string option"
  opt_driveName :: "string option"
  opt_structure :: structure_kind
  includeFolders :: "bool option"
  maxDepth :: "number option"
  filter_opt :: "string option"
  pageSize :: "number option"

text \<open>
  The wildcard pattern of \<open>matchesFilter\<close>: the filter is lower-cased, every character
  but \<open>*\<close> is escaped and so stands for itself, \<open>*\<close> becomes \<open>.*\<close>, and the expression is
  anchored and case-insensitive. \<open>.\<close> matches any character but a line terminator.
\<close>

definition line_terminator :: "char \<Rightarrow> bool" where
  "line_terminator c = (of_char c = (10::nat) \<or> of_char c = (13::nat))"

fun glob_match :: "string \<Rightarrow> string \<Rightarrow> bool" where
  "glob_match [] s = (s = [])"
| "glob_match (p # ps) [] = (p = CHR ''*'' \<and> glob_match ps [])"
| "glob_match (p # ps) (c # cs) =
     (if p = CHR ''*''
      then glob_match ps (c # cs) \<or> (\<not> line_terminator c \<and> glob_match (p # ps) cs)
      else lower_char c = p \<and> glob_match ps cs)"

definition matchesFilter :: "string \<Rightarrow> string option \<Rightarrow> bool" where
  "matchesFilter name flt =
     (if \<not> truthy_str flt then True
      else if name = [] then False
      else
        (let loweredName = toLowerCase name; loweredFilter = toLowerCase (the flt) in
         if startsWith loweredFilter ''*.'' \<and> length loweredFilter > 2
         then endsWith loweredName (drop 1 loweredFilter)
         else if CHR ''*'' \<in> set loweredFilter then glob_match loweredFilter name
         else str_includes loweredName loweredFilter))"

text \<open>
  What a traversal runs against and with: the listing of a folder as
  \<open>listDriveItemChildren\<close> returns it (all pages, or the error thrown), keyed by the
  item id passed to it, and the values that the closure \<open>walk\<close> holds from the start of
  \<open>collectSharePointFiles\<close>: the site id, the drive, and the structure, include-folders,
  maximum depth and filter of the options, with their defaults. \<open>effectiveMaxDepth\<close> is
  the smaller of that maximum depth and \<open>SAFE_MAX_DEPTH\<close>.
\<close>

record walk_ctx =
  listDriveItemChildren :: "string option \<Rightarrow> driveItem list result"
  w_siteId :: string
  w_driveInfo :: SharePointDriveInfo
  w_structure :: structure_kind
  w_includeFolders :: bool
  w_maxDepth :: number
  w_filter :: "string option"

definition SAFE_MAX_DEPTH :: rat where
  "SAFE_MAX_DEPTH = 20"

definition effectiveMaxDepth :: "walk_ctx \<Rightarrow> number" where
  "effectiveMaxDepth ctx = Math_min (w_maxDepth ctx) (Num SAFE_MAX_DEPTH)"

text \<open>
  The two variables the closure \<open>walk\<close> writes to, and a trace of the listings made:
  the path and depth of the folder listed, and its children.
\<close>

record collector =
  flatItems :: "SharePointFileNode list"
  truncated :: bool
  listed :: "(string \<times> nat \<times> driveItem list) list"

definition itemName :: "driveItem \<Rightarrow> string" where
  "itemName item = the (or_str (i_name item) (Some []))"

definition childPath :: "string \<Rightarrow> driveItem \<Rightarrow> string" where
  "childPath currentPath item =
     (if currentPath = ''/'' then ''/'' @ itemName item else currentPath @ ''/'' @ itemName item)"

text \<open>
  The node \<open>baseNode\<close> of a child, from the site id and the drive that the closure holds,
  the path of the folder listed and the child.
\<close>

definition baseNode ::
  "string \<Rightarrow> SharePointDriveInfo \<Rightarrow> string \<Rightarrow> driveItem \<Rightarrow> SharePointFileNode" where
  "baseNode site driveInfo currentPath item =
     FileNode site (driveId driveInfo) (Some (the (or_str (i_id item) (Some []))))
       (itemName item) (i_webUrl item) (i_size item) (i_folder item) (i_mimeType item)
       (or_str (i_createdDateTime item) (i_fsCreatedDateTime item))
       (or_str (i_lastModifiedDateTime item) (i_fsLastModifiedDateTime item))
       (childPath currentPath item) None"

definition folderNode ::
  "walk_ctx \<Rightarrow> string option \<Rightarrow> string \<Rightarrow> nat \<Rightarrow> SharePointFileNode list option \<Rightarrow> SharePointFileNode" where
  "folderNode ctx currentItemId currentPath depth children =
     FileNode (w_siteId ctx) (driveId (w_driveInfo ctx)) currentItemId
       (if depth = 0 then driveName (w_driveInfo ctx) else last (split_on CHR ''/'' currentPath))
       None None True None None None
       (if currentPath = [] then ''/'' else currentPath) children"

text \<open>The first \<open>if\<close> of the loop body: is the child pushed to \<open>flatItems\<close>?\<close>

definition emits :: "walk_ctx \<Rightarrow> driveItem \<Rightarrow> bool" where
  "emits ctx item =
     (if \<not> i_folder item \<and> matchesFilter (itemName item) (w_filter ctx) then True
      else if i_folder item then w_includeFolders ctx \<and> matchesFilter (itemName item) (w_filter ctx)
      else False)"

function walk ::
    "walk_ctx \<Rightarrow> string option \<Rightarrow> string \<Rightarrow> nat \<Rightarrow> collector \<Rightarrow> SharePointFileNode result \<times> collector"
  and walk_children ::
    "walk_ctx \<Rightarrow> string \<Rightarrow> nat \<Rightarrow> driveItem list \<Rightarrow> SharePointFileNode list \<Rightarrow> collector
       \<Rightarrow> SharePointFileNode list result \<times> collector" where
  "walk ctx currentItemId currentPath depth c =
     (case listDriveItemChildren ctx currentItemId of
        Inl err \<Rightarrow> (Inl err, c)
      | Inr children \<Rightarrow>
          (case walk_children ctx currentPath depth children []
                  (c\<lparr>listed := listed c @ [(currentPath, depth, children)]\<rparr>) of
             (Inl err, c') \<Rightarrow> (Inl err, c')
           | (Inr childNodes, c') \<Rightarrow>
               (Inr (folderNode ctx currentItemId currentPath depth
                       (if w_structure ctx = Tree then Some childNodes else None)), c')))"
| "walk_children ctx currentPath depth [] childNodes c = (Inr childNodes, c)"
| "walk_children ctx currentPath depth (item # items) childNodes c =
     (let c1 = (if emits ctx item
                then c\<lparr>flatItems := flatItems c
                           @ [baseNode (w_siteId ctx) (w_driveInfo ctx) currentPath item]\<rparr>
                else c)
      in if i_folder item then
           (if less_number (Num (of_nat depth)) (effectiveMaxDepth ctx) then
              (case walk ctx (i_id item) (childPath currentPath item) (depth + 1) c1 of
                 (Inl err, c2) \<Rightarrow> (Inl err, c2)
               | (Inr childNode, c2) \<Rightarrow>
                   walk_children ctx currentPath depth items (childNodes @ [childNode]) c2)
            else walk_children ctx currentPath depth items childNodes (c1\<lparr>truncated := True\<rparr>))
         else if w_structure ctx = Tree then
           walk_children ctx currentPath depth items
             (childNodes @ [baseNode (w_siteId ctx) (w_driveInfo ctx) currentPath item]) c1
         else walk_children ctx currentPath depth items childNodes c1)"
  by pat_completeness auto
termination
proof -
  let ?limit = "\<lambda>ctx. case effectiveMaxDepth ctx of Num q \<Rightarrow> \<lceil>q\<rceil> | _ \<Rightarrow> 0"
  have below: "int depth < ?limit ctx"
    if "less_number (Num (of_nat depth)) (effectiveMaxDepth ctx)" for depth ctx
    using that
    by (cases "w_maxDepth ctx") (simp_all add: effectiveMaxDepth_def less_ceiling_iff)
  show ?thesis
    by (relation "inv_image (less_than <*lex*> less_than)
          (\<lambda>x. case x of
             Inl (ctx, i, p, depth, c) \<Rightarrow> (nat (?limit ctx - int depth) + 1, 0)
           | Inr (ctx, p, depth, items, nodes, c) \<Rightarrow>
               (nat (?limit ctx - int depth), length items + 1))")
       (auto dest!: below)
qed

declare walk.simps [simp del]

datatype collected =
    FlatResult (r_items: "SharePointFileNode list") (r_driveId: string) (r_driveName: string)
      (r_siteId: string) (r_truncated: bool)
  | TreeResult (r_root: SharePointFileNode) (r_driveId: string) (r_driveName: string)
      (r_siteId: string) (r_truncated: bool)

text \<open>
  \<open>collectSharePointFiles\<close>, given what \<open>resolveSiteDrive\<close> returns for the site and what
  \<open>listDriveItemChildren\<close> returns in the resolved drive.
\<close>

definition walk_context ::
  "SharePointDriveInfo \<Rightarrow> (string option \<Rightarrow> driveItem list result)
     \<Rightarrow> ListSharePointSiteFilesOptions \<Rightarrow> walk_ctx" where
  "walk_context driveInfo children options =
     \<lparr> listDriveItemChildren = children, w_siteId = siteId options, w_driveInfo = driveInfo,
       w_structure = opt_structure options,
       w_includeFolders = (case includeFolders options of Some b \<Rightarrow> b | None \<Rightarrow> False),
       w_maxDepth = (case maxDepth options of Some m \<Rightarrow> m | None \<Rightarrow> Num 10),
       w_filter = filter_opt options \<rparr>"

definition collectSharePointFiles ::
  "SharePointDriveInfo result \<Rightarrow> (string option \<Rightarrow> driveItem list result)
     \<Rightarrow> ListSharePointSiteFilesOptions \<Rightarrow> collected result \<times> collector" where
  "collectSharePointFiles resolved children options =
     (let c0 = \<lparr> flatItems = [], truncated = False, listed = [] \<rparr> in
      case resolved of
        Inl err \<Rightarrow> (Inl err, c0)
      | Inr driveInfo \<Rightarrow>
          (case walk (walk_context driveInfo children options)
                  (Some (rootItemId driveInfo)) ''/'' 0 c0 of
             (Inl err, c) \<Rightarrow> (Inl err, c)
           | (Inr rootNode, c) \<Rightarrow>
               (if opt_structure options = Flat
                then Inr (FlatResult (flatItems c) (driveId driveInfo) (driveName driveInfo)
                            (siteId options) (truncated c))
                else Inr (TreeResult rootNode (driveId driveInfo) (driveName driveInfo)
                            (siteId options) (truncated c)), c)))"

subsection \<open>Reading the trace and the tree\<close>

text \<open>
  A listing of the trace is the path and the depth of the folder listed, and its
  children. \<open>listing_nodes\<close> are the nodes of those children of a listing that satisfy a
  condition.
\<close>

definition listing_nodes ::
  "string \<Rightarrow> SharePointDriveInfo \<Rightarrow> (driveItem \<Rightarrow> bool) \<Rightarrow> string \<times> nat \<times> driveItem list
     \<Rightarrow> SharePointFileNode list" where
  "listing_nodes site driveInfo P l = map (baseNode site driveInfo (fst l)) (filter P (snd (snd l)))"

text \<open>
  With the ceiling \<open>m\<close>: a listing made at a depth that is not below \<open>m\<close> and holding a
  folder cuts that folder off; a child of a listing made at depth \<open>d\<close> is passed on to the
  tree when it is a file, or a folder and \<open>d\<close> is below \<open>m\<close>.
\<close>

definition cut_off_at :: "number \<Rightarrow> string \<times> nat \<times> driveItem list \<Rightarrow> bool" where
  "cut_off_at m l = (\<not> less_number (Num (of_nat (fst (snd l)))) m \<and> list_ex i_folder (snd (snd l)))"

definition descended_at :: "number \<Rightarrow> nat \<Rightarrow> driveItem \<Rightarrow> bool" where
  "descended_at m depth item = (\<not> i_folder item \<or> less_number (Num (of_nat depth)) m)"

text \<open>
  The listing that descending into the folder \<open>item\<close>, found in the listing of \<open>p\<close> made at
  depth \<open>d\<close>, makes: of its path, one level down, with the children that the drive
  returns for its id. \<open>None\<close> when the drive returns an error.
\<close>

definition listing_below ::
  "(string option \<Rightarrow> driveItem list result) \<Rightarrow> string \<Rightarrow> nat \<Rightarrow> driveItem
     \<Rightarrow> (string \<times> nat \<times> driveItem list) option" where
  "listing_below children p d item =
     (case children (i_id item) of
        Inr ch \<Rightarrow> Some (childPath p item, Suc d, ch)
      | Inl err \<Rightarrow> None)"

text \<open>
  A listing \<open>l'\<close> comes from a listing \<open>l\<close> under the ceiling \<open>m\<close> when \<open>l\<close> was made at a
  depth below \<open>m\<close> and \<open>l'\<close> is the listing below one of its folders.
\<close>

definition comes_from ::
  "(string option \<Rightarrow> driveItem list result) \<Rightarrow> number \<Rightarrow> string \<times> nat \<times> driveItem list
     \<Rightarrow> string \<times> nat \<times> driveItem list \<Rightarrow> bool" where
  "comes_from children m l' l =
     (less_number (Num (of_nat (fst (snd l)))) m
      \<and> list_ex (\<lambda>item. i_folder item \<and> listing_below children (fst l) (fst (snd l)) item = Some l')
            (snd (snd l)))"

text \<open>All nodes of a tree, the root first.\<close>

fun nodes_of :: "SharePointFileNode \<Rightarrow> SharePointFileNode list" where
  "nodes_of (FileNode s d i n u z f m cr lm p ch) =
     FileNode s d i n u z f m cr lm p ch
       # (case ch of None \<Rightarrow> [] | Some cs \<Rightarrow> concat (map nodes_of cs))"

text \<open>The file nodes, and the paths of the folder nodes, in the trees of a list of nodes.\<close>

definition files_in :: "SharePointFileNode list \<Rightarrow> SharePointFileNode list" where
  "files_in ns = filter (\<lambda>n. \<not> n_isFolder n) (concat (map nodes_of ns))"

definition folders_in :: "SharePointFileNode list \<Rightarrow> string list" where
  "folders_in ns = map n_path (filter n_isFolder (concat (map nodes_of ns)))"

text \<open>
  A folder node of the tree against a listing: the node stands for the folder listed,
  its children are, in order, the files of the listing and those folders of the listing
  that were descended into, and its file children are the nodes of all files listed.
\<close>

definition node_matches ::
  "string \<Rightarrow> SharePointDriveInfo \<Rightarrow> number \<Rightarrow> SharePointFileNode
     \<Rightarrow> string \<times> nat \<times> driveItem list \<Rightarrow> bool" where
  "node_matches site driveInfo m n l =
     (n_path n = fst l
      \<and> (case n_children n of
            None \<Rightarrow> False
          | Some ch \<Rightarrow>
              map n_path ch
                = map (childPath (fst l)) (filter (descended_at m (fst (snd l))) (snd (snd l)))
              \<and> filter (\<lambda>m. \<not> n_isFolder m) ch
                  = listing_nodes site driveInfo (\<lambda>item. \<not> i_folder item) l))"

text \<open>The same, read with the values that a traversal holds.\<close>

abbreviation emitted :: "walk_ctx \<Rightarrow> string \<times> nat \<times> driveItem list \<Rightarrow> SharePointFileNode list" where
  "emitted ctx \<equiv> listing_nodes (w_siteId ctx) (w_driveInfo ctx) (emits ctx)"

abbreviation file_nodes :: "walk_ctx \<Rightarrow> string \<times> nat \<times> driveItem list \<Rightarrow> SharePointFileNode list" where
  "file_nodes ctx \<equiv> listing_nodes (w_siteId ctx) (w_driveInfo ctx) (\<lambda>item. \<not> i_folder item)"

abbreviation cut_off :: "walk_ctx \<Rightarrow> string \<times> nat \<times> driveItem list \<Rightarrow> bool" where
  "cut_off ctx \<equiv> cut_off_at (effectiveMaxDepth ctx)"

abbreviation descended :: "walk_ctx \<Rightarrow> nat \<Rightarrow> driveItem \<Rightarrow> bool" where
  "descended ctx \<equiv> descended_at (effectiveMaxDepth ctx)"

abbreviation matches_listing ::
  "walk_ctx \<Rightarrow> SharePointFileNode \<Rightarrow> string \<times> nat \<times> driveItem list \<Rightarrow> bool" where
  "matches_listing ctx \<equiv> node_matches (w_siteId ctx) (w_driveInfo ctx) (effectiveMaxDepth ctx)"

section \<open>graph-tools.ts: registerGraphTools\<close>

text \<open>
  What is registered under a tool name: the pipeline for a catalog endpoint, or one of
  the two custom handlers.
\<close>

datatype handler =
    CatalogTool tool "EndpointConfig option"
  | ListSharePointSiteFiles
  | DownloadFileToLocal

text \<open>
  The server is the list of its registrations. \<open>server.tool\<close> throws when the name is
  taken, which the callers catch and count.
\<close>

type_synonym server = "(string \<times> handler) list"

definition server_tool :: "server \<Rightarrow> string \<Rightarrow> handler \<Rightarrow> server result" where
  "server_tool srv name h =
     (if name \<in> fst ` set srv then Inl (''Tool '' @ name @ '' is already registered'')
      else Inr (srv @ [(name, h)]))"

record registration =
  reg_server :: server
  registeredCount :: nat
  skippedCount :: nat
  failedCount :: nat

definition try_register :: "registration \<Rightarrow> string \<Rightarrow> handler \<Rightarrow> registration" where
  "try_register g name h =
     (case server_tool (reg_server g) name h of
        Inr srv \<Rightarrow> g\<lparr>reg_server := srv, registeredCount := registeredCount g + 1\<rparr>
      | Inl err \<Rightarrow> g\<lparr>failedCount := failedCount g + 1\<rparr>)"

text \<open>
  One round of the loop over \<open>api.endpoints\<close>. \<open>enabledToolsRegex\<close> is the test of the
  compiled pattern, \<open>None\<close> when no pattern was given or it did not compile.
\<close>

definition register_endpoint ::
  "EndpointConfig list \<Rightarrow> bool \<Rightarrow> (string \<Rightarrow> bool) option \<Rightarrow> bool \<Rightarrow> registration \<Rightarrow> tool
     \<Rightarrow> registration" where
  "register_endpoint endpointsData readOnly enabledToolsRegex orgMode g t =
     (let endpointConfig = find (\<lambda>e. toolName e = t_alias t) endpointsData in
      if \<not> orgMode \<and> (case endpointConfig of
                         Some e \<Rightarrow> scopes e = None \<and> workScopes e \<noteq> None | None \<Rightarrow> False)
      then g\<lparr>skippedCount := skippedCount g + 1\<rparr>
      else if readOnly \<and> toUpperCase (t_method t) \<noteq> ''GET''
      then g\<lparr>skippedCount := skippedCount g + 1\<rparr>
      else if (case enabledToolsRegex of Some test \<Rightarrow> \<not> test (t_alias t) | None \<Rightarrow> False)
      then g\<lparr>skippedCount := skippedCount g + 1\<rparr>
      else try_register g (t_alias t) (CatalogTool t endpointConfig))"

definition registerGraphTools ::
  "tool list \<Rightarrow> EndpointConfig list \<Rightarrow> server \<Rightarrow> bool \<Rightarrow> (string \<Rightarrow> bool) option \<Rightarrow> bool
     \<Rightarrow> nat \<times> server" where
  "registerGraphTools endpoints endpointsData srv readOnly enabledToolsRegex orgMode =
     (let g0 = \<lparr> reg_server = srv, registeredCount = 0, skippedCount = 0, failedCount = 0 \<rparr>;
          g1 = foldl (register_endpoint endpointsData readOnly enabledToolsRegex orgMode) g0 endpoints;
          g2 = try_register g1 ''list-sharepoint-site-files'' ListSharePointSiteFiles;
          g3 = try_register g2 ''download-file-to-local'' DownloadFileToLocal
      in (registeredCount g3, reg_server g3))"

text \<open>A handler that may be registered in read-only mode as far as the catalog loop goes.\<close>

definition read_only_safe :: "handler \<Rightarrow> bool" where
  "read_only_safe h = (case h of CatalogTool t c \<Rightarrow> toUpperCase (t_method t) = ''GET'' | _ \<Rightarrow> True)"

section \<open>Example environments\<close>

text \<open>
  A server that answers every request with 200 and the body \<open>data\<close>, a token from the
  auth manager, the working directory \<open>/app\<close>, no download directory configured, an
  empty file system whose calls succeed.
\<close>

definition quiet_env :: env where
  "quiet_env =
     \<lparr> fetch = (\<lambda>n rq. Inr \<lparr> status = 200, statusText = ''OK'', body = ''data'', etag = None \<rparr>),
       authManager_getToken = Inr (Some ''tok''),
       MS365_MCP_TENANT_ID = None, MS365_MCP_CLIENT_ID = None, MS365_MCP_CLIENT_SECRET = None,
       lib_refreshAccessToken = (\<lambda>rt cid cs tid. Inl ''refresh failed''),
       JSON_parse = (\<lambda>s. None), toonEncode = (\<lambda>j. None), URL_parse = (\<lambda>s. None),
       cwd = ''/app'', MS365_MCP_DOWNLOAD_DIR = None,
       existsSync = (\<lambda>p. False), mkdirSync = (\<lambda>p. None), writeFileSync = (\<lambda>p b. None) \<rparr>"

definition fresh_world :: world where
  "fresh_world = \<lparr> accessToken = None, refreshToken = None, outputFormat = JsonFormat,
     sent = [], refreshed = [], fs_log = [] \<rparr>"

text \<open>
  A server that accepts only the access token \<open>new\<close>, and a token endpoint that issues
  it together with the refresh token \<open>r2\<close>; the client holds \<open>old\<close> and \<open>r1\<close>.
\<close>

definition unauthorized :: response where
  "unauthorized = \<lparr> status = 401, statusText = ''Unauthorized'', body = [], etag = None \<rparr>"

definition refreshing_env :: env where
  "refreshing_env = quiet_env
     \<lparr> fetch := (\<lambda>n rq. if map_of (rq_headers rq) ''Authorization'' = Some ''Bearer new''
                          then Inr \<lparr> status = 200, statusText = ''OK'', body = ''{}'', etag = None \<rparr>
                          else Inr unauthorized),
       MS365_MCP_CLIENT_SECRET := Some ''secret'',
       lib_refreshAccessToken :=
         (\<lambda>rt cid cs tid. Inr \<lparr> access_token = ''new'', refresh_token = Some ''r2'' \<rparr>),
       JSON_parse := (\<lambda>s. if s = ''{}'' then Some (JObj []) else None) \<rparr>"

text \<open>The same, with a server that rejects every token.\<close>

definition rejecting_env :: env where
  "rejecting_env = refreshing_env \<lparr> fetch := (\<lambda>n rq. Inr unauthorized) \<rparr>"

text \<open>The rejecting server, and a token endpoint that refuses the refresh token.\<close>

definition failing_refresh_env :: env where
  "failing_refresh_env = rejecting_env
     \<lparr> lib_refreshAccessToken := (\<lambda>rt cid cs tid. Inl ''invalid_grant'') \<rparr>"

text \<open>The rejecting server, and no client secret in the environment.\<close>

definition no_secret_env :: env where
  "no_secret_env = rejecting_env \<lparr> MS365_MCP_CLIENT_SECRET := None \<rparr>"

definition signed_in :: world where
  "signed_in = fresh_world \<lparr> accessToken := Some ''old'', refreshToken := Some ''r1'' \<rparr>"

definition signed_in_no_refresh :: world where
  "signed_in_no_refresh = fresh_world \<lparr> accessToken := Some ''old'' \<rparr>"

text \<open>
  A server that answers every request with the object \<open>{"id":"1"}\<close> and the entity tag
  \<open>abc\<close>.
\<close>

definition etag_env :: env where
  \<open>etag_env = quiet_env
     \<lparr> fetch := (\<lambda>n rq. Inr \<lparr> status = 200, statusText = ''OK'', body = ''{"id":"1"}'',
                                etag = Some ''abc'' \<rparr>),
       JSON_parse := (\<lambda>s. if s = ''{"id":"1"}'' then Some (JObj [(''id'', JStr ''1'')]) else None) \<rparr>\<close>

text \<open>
  Two catalog entries: a tool whose path names the parameter \<open>id\<close> twice, and the usual
  message listing with the query parameter \<open>top\<close>.
\<close>

definition twice_tool :: tool where
  "twice_tool = \<lparr> t_alias = ''get-item'', t_method = ''get'', t_path = ''/a/{id}/b/{id}/c/:id/d/:id'',
     t_parameters = [\<lparr> p_name = ''id'', p_type = Path, p_schema = None \<rparr>], t_errors = [] \<rparr>"

definition messages_tool :: tool where
  "messages_tool = \<lparr> t_alias = ''list-mail-messages'', t_method = ''get'', t_path = ''/me/messages'',
     t_parameters = [\<lparr> p_name = ''top'', p_type = Query, p_schema = None \<rparr>], t_errors = [] \<rparr>"

text \<open>The message listing with its query parameter declared under the prefixed name.\<close>

definition prefixed_messages_tool :: tool where
  "prefixed_messages_tool = messages_tool
     \<lparr> t_parameters := [\<lparr> p_name = ''$top'', p_type = Query, p_schema = None \<rparr>] \<rparr>"

text \<open>
  A server with two pages of messages: \<open>/me/messages\<close> answers with the item 1 and a
  cursor to \<open>/me/messages?$skip=1\<close>, which answers with the item 2 and no cursor. The
  message listing is the catalog entry above; \<open>media_tool\<close> is a listing that the catalog
  marks as media content, so that its responses are passed on raw.
\<close>

definition page1 :: string where
  \<open>page1 = ''{"value":[1],"@odata.nextLink":"https://graph.microsoft.com/v1.0/me/messages?$skip=1"}''\<close>

definition page2 :: string where
  \<open>page2 = ''{"value":[2]}''\<close>

definition paging_env :: env where
  "paging_env = quiet_env
     \<lparr> fetch := (\<lambda>n rq.
          if rq_url rq = ''https://graph.microsoft.com/v1.0/me/messages''
          then Inr \<lparr> status = 200, statusText = ''OK'', body = page1, etag = None \<rparr>
          else if rq_url rq = ''https://graph.microsoft.com/v1.0/me/messages?$skip=1''
          then Inr \<lparr> status = 200, statusText = ''OK'', body = page2, etag = None \<rparr>
          else Inr \<lparr> status = 404, statusText = ''Not Found'', body = [], etag = None \<rparr>),
       JSON_parse := (\<lambda>s.
          if s = page1 then Some (JObj [(''value'', JArr [JNum 1]),
                 (''@odata.nextLink'', JStr ''https://graph.microsoft.com/v1.0/me/messages?$skip=1'')])
          else if s = page2 then Some (JObj [(''value'', JArr [JNum 2])])
          else None),
       URL_parse := (\<lambda>s.
          if s = ''https://graph.microsoft.com/v1.0/me/messages?$skip=1''
          then Some \<lparr> pathname = ''/v1.0/me/messages'', search = ''?$skip=1'',
                       searchParams = [(''$skip'', ''1'')] \<rparr>
          else None) \<rparr>"

definition media_tool :: tool where
  "media_tool = messages_tool \<lparr> t_errors := [''Retrieved media content''] \<rparr>"

text \<open>The options \<open>executeGraphTool\<close> builds for \<open>media_tool\<close>, and the decoded first page.\<close>

definition media_options_rec :: GraphRequestOptions where
  "media_options_rec = no_options\<lparr>o_method := Some ''GET'', o_headers := Some [], o_rawResponse := True\<rparr>"

definition first_page :: json where
  "first_page = JObj [(''value'', JArr [JNum 1]),
     (''@odata.nextLink'', JStr ''https://graph.microsoft.com/v1.0/me/messages?$skip=1'')]"

text \<open>
  A library nested five folders deep, \<open>/d1/d2/d3/d4/d5\<close>, with one file in each folder
  and in the root; the item id of a folder is its name.
\<close>

definition file_item :: "string \<Rightarrow> driveItem" where
  "file_item name =
     \<lparr> i_id = Some (''id-'' @ name), i_name = Some name, i_folder = False, i_webUrl = None,
       i_size = Some 1, i_mimeType = None, i_createdDateTime = None, i_fsCreatedDateTime = None,
       i_lastModifiedDateTime = None, i_fsLastModifiedDateTime = None \<rparr>"

definition folder_item :: "string \<Rightarrow> driveItem" where
  "folder_item name = (file_item name) \<lparr> i_id := Some name, i_folder := True, i_size := None \<rparr>"

definition nested_library :: "string option \<Rightarrow> driveItem list result" where
  "nested_library i =
     (if i = Some ''root'' then Inr [folder_item ''d1'', file_item ''a.pdf'']
      else if i = Some ''d1'' then Inr [file_item ''b.txt'', folder_item ''d2'']
      else if i = Some ''d2'' then Inr [folder_item ''d3'', file_item ''c.pdf'']
      else if i = Some ''d3'' then Inr [folder_item ''d4'', file_item ''d.PDF'']
      else if i = Some ''d4'' then Inr [folder_item ''d5'', file_item ''e.pdf'']
      else if i = Some ''d5'' then Inr [file_item ''f.pdf'']
      else Inl ''Microsoft Graph API error: 404 Not Found - '')"

definition documents_drive :: SharePointDriveInfo where
  "documents_drive = \<lparr> driveId = ''drv'', driveName = ''Documents'', rootItemId = ''root'' \<rparr>"

definition list_options :: ListSharePointSiteFilesOptions where
  "list_options = \<lparr> siteId = ''site'', opt_driveId = None, opt_driveName = None,
     opt_structure = Flat, includeFolders = None, maxDepth = None, filter_opt = None,
     pageSize = None \<rparr>"

text \<open>Calls on the nested library with the maximum depth 3, in flat and in tree mode.\<close>

definition depth3_flat :: ListSharePointSiteFilesOptions where
  "depth3_flat = list_options\<lparr>maxDepth := Some (Num 3)\<rparr>"

definition depth3_tree :: ListSharePointSiteFilesOptions where
  "depth3_tree = list_options\<lparr>maxDepth := Some (Num 3), opt_structure := Tree\<rparr>"

definition pdf_with_folders :: ListSharePointSiteFilesOptions where
  "pdf_with_folders = list_options\<lparr>maxDepth := Some (Num 3), includeFolders := Some True,
     filter_opt := Some ''*.pdf''\<rparr>"

text \<open>
  Calls that set include-folders: with the filter \<open>d*\<close>, which the folders \<open>d1\<close> to
  \<open>d4\<close> match, and (above) with the filter \<open>*.pdf\<close>, which no folder matches. A call with
  the maximum depth 2.5.
\<close>

definition named_d_with_folders :: ListSharePointSiteFilesOptions where
  "named_d_with_folders = list_options\<lparr>maxDepth := Some (Num 3), includeFolders := Some True,
     filter_opt := Some ''d*''\<rparr>"

definition depth_two_and_a_half :: ListSharePointSiteFilesOptions where
  "depth_two_and_a_half = list_options\<lparr>maxDepth := Some (Num (5 / 2))\<rparr>"

text \<open>
  A library without end: every folder, the root too, holds one folder \<open>d\<close>. Calls on it
  with the maximum depths 25 and 20.
\<close>

definition endless_library :: "string option \<Rightarrow> driveItem list result" where
  "endless_library i = Inr [folder_item ''d'']"

definition depth25_flat :: ListSharePointSiteFilesOptions where
  "depth25_flat = list_options\<lparr>maxDepth := Some (Num 25)\<rparr>"

definition depth20_flat :: ListSharePointSiteFilesOptions where
  "depth20_flat = list_options\<lparr>maxDepth := Some (Num 20)\<rparr>"

text \<open>A catalog with the message listing and an endpoint that sends mail.\<close>

definition send_mail_tool :: tool where
  "send_mail_tool = \<lparr> t_alias = ''send-mail'', t_method = ''post'', t_path = ''/me/sendMail'',
     t_parameters = [\<lparr> p_name = ''body'', p_type = Body, p_schema = None \<rparr>], t_errors = [] \<rparr>"

definition small_catalog :: "tool list" where
  "small_catalog = [messages_tool, send_mail_tool]"

section \<open>Properties\<close>

subsection \<open>Objects\<close>

text \<open>A key that is no array index is set in place or goes last.\<close>

lemma obj_define_Nil: "obj_define [] k v = [(k, v)]"
  by (simp add: obj_define_def)

lemma obj_define_Cons:
  "\<not> is_array_index k \<Longrightarrow>
     obj_define ((k', v') # kvs) k v = (if k' = k then (k, v) # kvs else (k', v') # obj_define kvs k v)"
  by (simp add: obj_define_def)

lemma obj_set_Nil: "k \<noteq> ''__proto__'' \<Longrightarrow> obj_set [] k v = [(k, v)]"
  by (simp add: obj_set_def obj_define_def)

lemma obj_set_Cons:
  "k \<noteq> ''__proto__'' \<Longrightarrow> \<not> is_array_index k \<Longrightarrow>
     obj_set ((k', v') # kvs) k v = (if k' = k then (k, v) # kvs else (k', v') # obj_set kvs k v)"
  by (simp add: obj_set_def obj_define_def)

lemma map_of_obj_replace:
  "map_of kvs k \<noteq> None \<Longrightarrow> map_of (obj_replace kvs k v) k' = (if k' = k then Some v else map_of kvs k')"
  by (induction kvs) auto

lemma map_of_obj_insert_index:
  "map_of (obj_insert_index kvs k v) k' = (if k' = k then Some v else map_of kvs k')"
  by (induction kvs) auto

lemma map_of_obj_define: "map_of (obj_define kvs k v) k' = (if k' = k then Some v else map_of kvs k')"
  by (auto simp: obj_define_def map_of_obj_replace map_of_obj_insert_index map_add_def
           split: option.splits)

subsection \<open>The download directory\<close>

text \<open>
  A target that does not begin with the characters of the base directory is refused, and
  nothing is sent or written; so is \<open>../../etc/passwd\<close> under the default base directory,
  with or without \<open>overwrite\<close>.
\<close>

lemma download_refused_without_write:
  assumes "\<not> startsWith
               (path_resolve (cwd e)
                  [path_resolve (cwd e)
                     [the (or_str (MS365_MCP_DOWNLOAD_DIR e)
                             (Some (path_resolve (cwd e) [cwd e, ''downloads''])))], localPath])
               (path_resolve (cwd e)
                  [the (or_str (MS365_MCP_DOWNLOAD_DIR e)
                          (Some (path_resolve (cwd e) [cwd e, ''downloads''])))])"
  shows "isError (fst (download_file_to_local e drive item localPath overwrite w))"
    and "snd (download_file_to_local e drive item localPath overwrite w) = w"
  using assms by (simp_all add: download_file_to_local_def Let_def error_result_def)

lemma download_etc_passwd_refused:
  "isError (fst (download_file_to_local quiet_env ''d'' ''i'' ''../../etc/passwd'' overwrite fresh_world))
   \<and> snd (download_file_to_local quiet_env ''d'' ''i'' ''../../etc/passwd'' overwrite fresh_world)
       = fresh_world"
proof -
  have "\<not> startsWith
               (path_resolve (cwd quiet_env)
                  [path_resolve (cwd quiet_env)
                     [the (or_str (MS365_MCP_DOWNLOAD_DIR quiet_env)
                             (Some (path_resolve (cwd quiet_env) [cwd quiet_env, ''downloads''])))],
                   ''../../etc/passwd''])
               (path_resolve (cwd quiet_env)
                  [the (or_str (MS365_MCP_DOWNLOAD_DIR quiet_env)
                          (Some (path_resolve (cwd quiet_env) [cwd quiet_env, ''downloads''])))])"
    by code_simp
  then show ?thesis
    by (simp add: download_refused_without_write)
qed

text \<open>
  C1. A local path that resolves outside the download directory must be refused before
  anything is written. The handler compares characters, not path segments: with the
  default base \<open>/app/downloads\<close> the local path \<open>../downloads-old/x\<close> resolves to
  \<open>/app/downloads-old/x\<close>, which is outside the base directory and still begins with
  its characters. The call is not refused: it creates \<open>/app/downloads-old\<close> and writes
  the file there.
\<close>

theorem download_escapes_to_sibling_directory:
  "path_resolve (cwd quiet_env) [''/app/downloads'', ''../downloads-old/x''] = ''/app/downloads-old/x''
   \<and> \<not> within_directory ''/app/downloads'' ''/app/downloads-old/x''
   \<and> \<not> isError (fst (download_file_to_local quiet_env ''d'' ''i'' ''../downloads-old/x'' False fresh_world))
   \<and> fs_log (snd (download_file_to_local quiet_env ''d'' ''i'' ''../downloads-old/x'' False fresh_world))
       = [Mkdir ''/app/downloads-old'', WriteFile ''/app/downloads-old/x'' ''data'']"
  by code_simp

subsection \<open>Refresh and retry on 401\<close>

lemma refresh_then_retry:
  assumes tok: "chooseAccessToken e opts w = Inr (Some tok)" "tok \<noteq> []"
    and first: "fetch e (length (sent w)) (mk_request ep tok opts) = Inr r1" "status r1 = 401"
    and rt: "or_str (o_refreshToken opts) (refreshToken w) = Some rt" "rt \<noteq> []"
    and secret: "MS365_MCP_CLIENT_SECRET e = Some cs" "cs \<noteq> []"
    and lib: "lib_refreshAccessToken e rt
                (the (or_str (MS365_MCP_CLIENT_ID e) (Some ''084a3e9f-a9f4-43f7-89f9-d229cf97853e'')))
                cs (the (or_str (MS365_MCP_TENANT_ID e) (Some ''common''))) = Inr tr"
             "access_token tr \<noteq> []"
  shows "requestWithRefresh e ep opts w =
           (case fetch e (Suc (length (sent w))) (mk_request ep (access_token tr) opts) of
              Inl err \<Rightarrow> Inl err | Inr r2 \<Rightarrow> checkStatus r2,
            w\<lparr>sent := sent w @ [mk_request ep tok opts, mk_request ep (access_token tr) opts],
              refreshed := refreshed w @ [rt],
              accessToken := Some (access_token tr),
              refreshToken := (if truthy_str (refresh_token tr) then refresh_token tr
                               else refreshToken w)\<rparr>)"
proof -
  define w1 where "w1 = w\<lparr>sent := sent w @ [mk_request ep tok opts]\<rparr>"
  define w2 where "w2 = (if truthy_str (refresh_token tr)
     then w1\<lparr>refreshed := refreshed w @ [rt], accessToken := Some (access_token tr),
             refreshToken := refresh_token tr\<rparr>
     else w1\<lparr>refreshed := refreshed w @ [rt], accessToken := Some (access_token tr)\<rparr>)"
  define out where "out = fetch e (Suc (length (sent w))) (mk_request ep (access_token tr) opts)"
  have p1: "performRequest e ep tok opts w = (Inr r1, w1)"
    using first by (simp add: performRequest_def w1_def)
  have p2: "refreshAccessToken e rt w1 = (Inr (), w2)"
    using secret lib by (simp add: refreshAccessToken_def w1_def w2_def)
  have at2: "or_str (accessToken w2) (Some tok) = Some (access_token tr)"
    using lib by (simp add: w2_def or_str_def)
  have s2: "length (sent w2) = Suc (length (sent w))"
    by (simp add: w2_def w1_def)
  have p3: "performRequest e ep (access_token tr) opts w2
              = (out, w2\<lparr>sent := sent w2 @ [mk_request ep (access_token tr) opts]\<rparr>)"
    by (simp add: performRequest_def Let_def s2 out_def)
  have "requestWithRefresh e ep opts w
          = (case out of Inl err \<Rightarrow> Inl err | Inr r2 \<Rightarrow> checkStatus r2,
             w2\<lparr>sent := sent w2 @ [mk_request ep (access_token tr) opts]\<rparr>)"
    using tok first rt lib(2)
    by (cases out) (simp_all add: requestWithRefresh_def p1 p2 at2 p3)
  then show ?thesis
    by (simp add: w2_def w1_def out_def)
qed

lemma performRequest_tokens:
  "performRequest e ep tok opts w = (out, w') \<Longrightarrow>
     accessToken w' = accessToken w \<and> refreshToken w' = refreshToken w
     \<and> refreshed w' = refreshed w \<and> sent w' = sent w @ [mk_request ep tok opts]"
  by (auto simp: performRequest_def Let_def)

lemma no_refresh_token_no_refresh:
  assumes "\<not> truthy_str (or_str (o_refreshToken opts) (refreshToken w))"
  shows "refreshed (snd (requestWithRefresh e ep opts w)) = refreshed w"
    and "accessToken (snd (requestWithRefresh e ep opts w)) = accessToken w"
    and "refreshToken (snd (requestWithRefresh e ep opts w)) = refreshToken w"
    and "length (sent (snd (requestWithRefresh e ep opts w))) \<le> Suc (length (sent w))"
  using assms
  by (auto simp: requestWithRefresh_def Let_def split: sum.splits prod.splits option.splits
           dest!: performRequest_tokens)

lemma makeRequest_world: "snd (makeRequest e ep opts w) = snd (requestWithRefresh e ep opts w)"
  by (simp add: makeRequest_def split: prod.splits sum.splits)

lemma makeRequest_value:
  "fst (makeRequest e ep opts w) = map_sum id (decodeBody e opts) (fst (requestWithRefresh e ep opts w))"
  by (simp add: makeRequest_def split: prod.splits sum.splits)

lemma checkStatus_401: "status r = 401 \<Longrightarrow> checkStatus r = Inl (api_error r)"
  by (simp add: checkStatus_def ok_def)

lemma refresh_call_count:
  assumes tok: "chooseAccessToken e opts w = Inr (Some tok)" "tok \<noteq> []"
    and first: "fetch e (length (sent w)) (mk_request ep tok opts) = Inr r1" "status r1 = 401"
    and rt: "or_str (o_refreshToken opts) (refreshToken w) = Some rt" "rt \<noteq> []"
  shows "refreshed (snd (requestWithRefresh e ep opts w))
           = (if truthy_str (MS365_MCP_CLIENT_SECRET e) then refreshed w @ [rt] else refreshed w)"
    and "take (Suc (length (sent w))) (sent (snd (requestWithRefresh e ep opts w)))
           = sent w @ [mk_request ep tok opts]"
    and "length (sent (snd (requestWithRefresh e ep opts w))) \<le> length (sent w) + 2"
proof -
  define w1 where "w1 = w\<lparr>sent := sent w @ [mk_request ep tok opts]\<rparr>"
  have p1: "performRequest e ep tok opts w = (Inr r1, w1)"
    using first by (simp add: performRequest_def w1_def)
  obtain res w2 where ra: "refreshAccessToken e rt w1 = (res, w2)"
    by force
  have w2: "refreshed w2
              = (if truthy_str (MS365_MCP_CLIENT_SECRET e) then refreshed w @ [rt] else refreshed w)"
    "sent w2 = sent w @ [mk_request ep tok opts]"
    using ra by (auto simp: refreshAccessToken_def Let_def w1_def split: if_splits sum.splits)
  have "refreshed (snd (requestWithRefresh e ep opts w)) = refreshed w2
        \<and> take (Suc (length (sent w))) (sent (snd (requestWithRefresh e ep opts w))) = sent w2
        \<and> length (sent (snd (requestWithRefresh e ep opts w))) \<le> Suc (length (sent w2))"
  proof (cases res)
    case (Inl err)
    then show ?thesis
      using tok first rt by (simp add: requestWithRefresh_def p1 ra w2)
  next
    case (Inr u)
    show ?thesis
    proof (cases "truthy_str (or_str (accessToken w2) (Some tok))")
      case False
      then show ?thesis
        using tok first rt Inr by (simp add: requestWithRefresh_def p1 ra w2)
    next
      case True
      obtain out w3 where
        p3: "performRequest e ep (the (or_str (accessToken w2) (Some tok))) opts w2 = (out, w3)"
        by force
      note k = performRequest_tokens [OF p3]
      have "snd (requestWithRefresh e ep opts w) = w3"
        using tok first rt Inr True by (cases out) (simp_all add: requestWithRefresh_def p1 ra p3)
      then show ?thesis
        using k by (simp add: w2)
    qed
  qed
  then show "refreshed (snd (requestWithRefresh e ep opts w))
           = (if truthy_str (MS365_MCP_CLIENT_SECRET e) then refreshed w @ [rt] else refreshed w)"
    and "take (Suc (length (sent w))) (sent (snd (requestWithRefresh e ep opts w)))
           = sent w @ [mk_request ep tok opts]"
    and "length (sent (snd (requestWithRefresh e ep opts w))) \<le> length (sent w) + 2"
    by (simp_all add: w2)
qed

lemma no_secret_no_refresh:
  assumes tok: "chooseAccessToken e opts w = Inr (Some tok)" "tok \<noteq> []"
    and first: "fetch e (length (sent w)) (mk_request ep tok opts) = Inr r1" "status r1 = 401"
    and rt: "or_str (o_refreshToken opts) (refreshToken w) = Some rt" "rt \<noteq> []"
    and secret: "\<not> truthy_str (MS365_MCP_CLIENT_SECRET e)"
  shows "requestWithRefresh e ep opts w
           = (Inl ''MS365_MCP_CLIENT_SECRET not configured'',
              w\<lparr>sent := sent w @ [mk_request ep tok opts]\<rparr>)"
proof -
  have p1: "performRequest e ep tok opts w = (Inr r1, w\<lparr>sent := sent w @ [mk_request ep tok opts]\<rparr>)"
    using first by (simp add: performRequest_def)
  have p2: "refreshAccessToken e rt (w\<lparr>sent := sent w @ [mk_request ep tok opts]\<rparr>)
              = (Inl ''MS365_MCP_CLIENT_SECRET not configured'',
                 w\<lparr>sent := sent w @ [mk_request ep tok opts]\<rparr>)"
    using secret by (simp add: refreshAccessToken_def)
  show ?thesis
    using tok first rt by (simp add: requestWithRefresh_def p1 p2)
qed

lemma refresh_refused:
  assumes tok: "chooseAccessToken e opts w = Inr (Some tok)" "tok \<noteq> []"
    and first: "fetch e (length (sent w)) (mk_request ep tok opts) = Inr r1" "status r1 = 401"
    and rt: "or_str (o_refreshToken opts) (refreshToken w) = Some rt" "rt \<noteq> []"
    and secret: "MS365_MCP_CLIENT_SECRET e = Some cs" "cs \<noteq> []"
    and lib: "lib_refreshAccessToken e rt
                (the (or_str (MS365_MCP_CLIENT_ID e) (Some ''084a3e9f-a9f4-43f7-89f9-d229cf97853e'')))
                cs (the (or_str (MS365_MCP_TENANT_ID e) (Some ''common''))) = Inl err"
  shows "requestWithRefresh e ep opts w
           = (Inl err, w\<lparr>sent := sent w @ [mk_request ep tok opts], refreshed := refreshed w @ [rt]\<rparr>)"
proof -
  have p1: "performRequest e ep tok opts w = (Inr r1, w\<lparr>sent := sent w @ [mk_request ep tok opts]\<rparr>)"
    using first by (simp add: performRequest_def)
  have p2: "refreshAccessToken e rt (w\<lparr>sent := sent w @ [mk_request ep tok opts]\<rparr>)
              = (Inl err, w\<lparr>sent := sent w @ [mk_request ep tok opts], refreshed := refreshed w @ [rt]\<rparr>)"
    using secret lib by (simp add: refreshAccessToken_def)
  show ?thesis
    using tok first rt by (simp add: requestWithRefresh_def p1 p2)
qed

lemma no_refresh_without_401:
  assumes tok: "chooseAccessToken e opts w = Inr (Some tok)" "tok \<noteq> []"
    and first: "fetch e (length (sent w)) (mk_request ep tok opts) = Inr r1" "status r1 \<noteq> 401"
  shows "requestWithRefresh e ep opts w
           = (checkStatus r1, w\<lparr>sent := sent w @ [mk_request ep tok opts]\<rparr>)"
proof -
  have p1: "performRequest e ep tok opts w = (Inr r1, w\<lparr>sent := sent w @ [mk_request ep tok opts]\<rparr>)"
    using first by (simp add: performRequest_def)
  show ?thesis
    using tok first by (simp add: requestWithRefresh_def p1)
qed

text \<open>
  C2 as amended. Take a request whose first answer is 401 while a refresh token is
  present. The token endpoint is called exactly once when a client secret is configured
  and not at all otherwise, and at most one more request is sent. When the refresh
  succeeds (the token endpoint returns a non-empty access token) the held access token is
  replaced, the held refresh token is replaced when a new one came back, and the request
  is sent exactly once more, with the new token; the answer to that second request is
  final, so a second 401 is the error of the call. When the refresh fails, because no
  client secret is configured or because the token endpoint fails, its error is the error
  of the call, nothing is sent again and the held tokens stay. Without a refresh token no
  refresh is attempted, the tokens stay and at most one request is sent; after a first
  answer other than 401 no refresh is attempted, the tokens stay and only that one request
  was sent.
\<close>

theorem refresh_once_retry_once:
  "(chooseAccessToken e opts w = Inr (Some tok) \<and> tok \<noteq> []
      \<and> fetch e (length (sent w)) (mk_request ep tok opts) = Inr r1 \<and> status r1 = 401
      \<and> or_str (o_refreshToken opts) (refreshToken w) = Some rt \<and> rt \<noteq> []
    \<longrightarrow> refreshed (snd (makeRequest e ep opts w))
          = (if truthy_str (MS365_MCP_CLIENT_SECRET e) then refreshed w @ [rt] else refreshed w)
      \<and> take (Suc (length (sent w))) (sent (snd (makeRequest e ep opts w)))
          = sent w @ [mk_request ep tok opts]
      \<and> length (sent (snd (makeRequest e ep opts w))) \<le> length (sent w) + 2)
   \<and> (chooseAccessToken e opts w = Inr (Some tok) \<and> tok \<noteq> []
      \<and> fetch e (length (sent w)) (mk_request ep tok opts) = Inr r1 \<and> status r1 = 401
      \<and> or_str (o_refreshToken opts) (refreshToken w) = Some rt \<and> rt \<noteq> []
      \<and> MS365_MCP_CLIENT_SECRET e = Some cs \<and> cs \<noteq> []
      \<and> lib_refreshAccessToken e rt
            (the (or_str (MS365_MCP_CLIENT_ID e) (Some ''084a3e9f-a9f4-43f7-89f9-d229cf97853e'')))
            cs (the (or_str (MS365_MCP_TENANT_ID e) (Some ''common''))) = Inr tr
      \<and> access_token tr \<noteq> []
    \<longrightarrow> refreshed (snd (makeRequest e ep opts w)) = refreshed w @ [rt]
      \<and> accessToken (snd (makeRequest e ep opts w)) = Some (access_token tr)
      \<and> refreshToken (snd (makeRequest e ep opts w))
          = (if truthy_str (refresh_token tr) then refresh_token tr else refreshToken w)
      \<and> sent (snd (makeRequest e ep opts w))
          = sent w @ [mk_request ep tok opts, mk_request ep (access_token tr) opts]
      \<and> fst (makeRequest e ep opts w)
          = (case fetch e (Suc (length (sent w))) (mk_request ep (access_token tr) opts) of
               Inl err \<Rightarrow> Inl err
             | Inr r2 \<Rightarrow> map_sum id (decodeBody e opts) (checkStatus r2))
      \<and> (\<forall>r2. fetch e (Suc (length (sent w))) (mk_request ep (access_token tr) opts) = Inr r2
               \<and> status r2 = 401
             \<longrightarrow> fst (makeRequest e ep opts w) = Inl (api_error r2)))
   \<and> (chooseAccessToken e opts w = Inr (Some tok) \<and> tok \<noteq> []
      \<and> fetch e (length (sent w)) (mk_request ep tok opts) = Inr r1 \<and> status r1 = 401
      \<and> or_str (o_refreshToken opts) (refreshToken w) = Some rt \<and> rt \<noteq> []
      \<and> \<not> truthy_str (MS365_MCP_CLIENT_SECRET e)
    \<longrightarrow> fst (makeRequest e ep opts w) = Inl ''MS365_MCP_CLIENT_SECRET not configured''
      \<and> refreshed (snd (makeRequest e ep opts w)) = refreshed w
      \<and> sent (snd (makeRequest e ep opts w)) = sent w @ [mk_request ep tok opts]
      \<and> accessToken (snd (makeRequest e ep opts w)) = accessToken w
      \<and> refreshToken (snd (makeRequest e ep opts w)) = refreshToken w)
   \<and> (chooseAccessToken e opts w = Inr (Some tok) \<and> tok \<noteq> []
      \<and> fetch e (length (sent w)) (mk_request ep tok opts) = Inr r1 \<and> status r1 = 401
      \<and> or_str (o_refreshToken opts) (refreshToken w) = Some rt \<and> rt \<noteq> []
      \<and> MS365_MCP_CLIENT_SECRET e = Some cs \<and> cs \<noteq> []
      \<and> lib_refreshAccessToken e rt
            (the (or_str (MS365_MCP_CLIENT_ID e) (Some ''084a3e9f-a9f4-43f7-89f9-d229cf97853e'')))
            cs (the (or_str (MS365_MCP_TENANT_ID e) (Some ''common''))) = Inl err
    \<longrightarrow> fst (makeRequest e ep opts w) = Inl err
      \<and> refreshed (snd (makeRequest e ep opts w)) = refreshed w @ [rt]
      \<and> sent (snd (makeRequest e ep opts w)) = sent w @ [mk_request ep tok opts]
      \<and> accessToken (snd (makeRequest e ep opts w)) = accessToken w
      \<and> refreshToken (snd (makeRequest e ep opts w)) = refreshToken w)
   \<and> (\<not> truthy_str (or_str (o_refreshToken opts) (refreshToken w))
    \<longrightarrow> refreshed (snd (makeRequest e ep opts w)) = refreshed w
      \<and> accessToken (snd (makeRequest e ep opts w)) = accessToken w
      \<and> refreshToken (snd (makeRequest e ep opts w)) = refreshToken w
      \<and> length (sent (snd (makeRequest e ep opts w))) \<le> Suc (length (sent w)))
   \<and> (chooseAccessToken e opts w = Inr (Some tok) \<and> tok \<noteq> []
      \<and> fetch e (length (sent w)) (mk_request ep tok opts) = Inr r1 \<and> status r1 \<noteq> 401
    \<longrightarrow> refreshed (snd (makeRequest e ep opts w)) = refreshed w
      \<and> sent (snd (makeRequest e ep opts w)) = sent w @ [mk_request ep tok opts]
      \<and> accessToken (snd (makeRequest e ep opts w)) = accessToken w
      \<and> refreshToken (snd (makeRequest e ep opts w)) = refreshToken w)"
proof (intro conjI impI)
  assume h: "chooseAccessToken e opts w = Inr (Some tok) \<and> tok \<noteq> []
      \<and> fetch e (length (sent w)) (mk_request ep tok opts) = Inr r1 \<and> status r1 = 401
      \<and> or_str (o_refreshToken opts) (refreshToken w) = Some rt \<and> rt \<noteq> []"
  note n = refresh_call_count [of e opts w tok ep r1 rt]
  show "refreshed (snd (makeRequest e ep opts w))
          = (if truthy_str (MS365_MCP_CLIENT_SECRET e) then refreshed w @ [rt] else refreshed w)"
    using h n(1) by (simp add: makeRequest_world)
  show "take (Suc (length (sent w))) (sent (snd (makeRequest e ep opts w)))
          = sent w @ [mk_request ep tok opts]"
    using h n(2) by (simp add: makeRequest_world)
  show "length (sent (snd (makeRequest e ep opts w))) \<le> length (sent w) + 2"
    using h n(3) by (simp add: makeRequest_world)
next
  assume h: "chooseAccessToken e opts w = Inr (Some tok) \<and> tok \<noteq> []
      \<and> fetch e (length (sent w)) (mk_request ep tok opts) = Inr r1 \<and> status r1 = 401
      \<and> or_str (o_refreshToken opts) (refreshToken w) = Some rt \<and> rt \<noteq> []
      \<and> MS365_MCP_CLIENT_SECRET e = Some cs \<and> cs \<noteq> []
      \<and> lib_refreshAccessToken e rt
            (the (or_str (MS365_MCP_CLIENT_ID e) (Some ''084a3e9f-a9f4-43f7-89f9-d229cf97853e'')))
            cs (the (or_str (MS365_MCP_TENANT_ID e) (Some ''common''))) = Inr tr
      \<and> access_token tr \<noteq> []"
  note r = refresh_then_retry [of e opts w tok ep r1 rt cs tr]
  have eq: "requestWithRefresh e ep opts w =
           (case fetch e (Suc (length (sent w))) (mk_request ep (access_token tr) opts) of
              Inl err \<Rightarrow> Inl err | Inr r2 \<Rightarrow> checkStatus r2,
            w\<lparr>sent := sent w @ [mk_request ep tok opts, mk_request ep (access_token tr) opts],
              refreshed := refreshed w @ [rt],
              accessToken := Some (access_token tr),
              refreshToken := (if truthy_str (refresh_token tr) then refresh_token tr
                               else refreshToken w)\<rparr>)"
    using h r by blast
  show "refreshed (snd (makeRequest e ep opts w)) = refreshed w @ [rt]"
    by (simp add: makeRequest_world eq)
  show "accessToken (snd (makeRequest e ep opts w)) = Some (access_token tr)"
    by (simp add: makeRequest_world eq)
  show "refreshToken (snd (makeRequest e ep opts w))
          = (if truthy_str (refresh_token tr) then refresh_token tr else refreshToken w)"
    by (simp add: makeRequest_world eq)
  show "sent (snd (makeRequest e ep opts w))
          = sent w @ [mk_request ep tok opts, mk_request ep (access_token tr) opts]"
    by (simp add: makeRequest_world eq)
  show v: "fst (makeRequest e ep opts w)
          = (case fetch e (Suc (length (sent w))) (mk_request ep (access_token tr) opts) of
               Inl err \<Rightarrow> Inl err
             | Inr r2 \<Rightarrow> map_sum id (decodeBody e opts) (checkStatus r2))"
    by (simp add: makeRequest_value eq split: sum.splits)
  show "\<forall>r2. fetch e (Suc (length (sent w))) (mk_request ep (access_token tr) opts) = Inr r2
               \<and> status r2 = 401
             \<longrightarrow> fst (makeRequest e ep opts w) = Inl (api_error r2)"
    by (simp add: v checkStatus_401)
next
  assume h: "chooseAccessToken e opts w = Inr (Some tok) \<and> tok \<noteq> []
      \<and> fetch e (length (sent w)) (mk_request ep tok opts) = Inr r1 \<and> status r1 = 401
      \<and> or_str (o_refreshToken opts) (refreshToken w) = Some rt \<and> rt \<noteq> []
      \<and> \<not> truthy_str (MS365_MCP_CLIENT_SECRET e)"
  have eq: "requestWithRefresh e ep opts w
           = (Inl ''MS365_MCP_CLIENT_SECRET not configured'',
              w\<lparr>sent := sent w @ [mk_request ep tok opts]\<rparr>)"
    using h no_secret_no_refresh [of e opts w tok ep r1 rt] by blast
  show "fst (makeRequest e ep opts w) = Inl ''MS365_MCP_CLIENT_SECRET not configured''"
    by (simp add: makeRequest_value eq)
  show "refreshed (snd (makeRequest e ep opts w)) = refreshed w"
    by (simp add: makeRequest_world eq)
  show "sent (snd (makeRequest e ep opts w)) = sent w @ [mk_request ep tok opts]"
    by (simp add: makeRequest_world eq)
  show "accessToken (snd (makeRequest e ep opts w)) = accessToken w"
    by (simp add: makeRequest_world eq)
  show "refreshToken (snd (makeRequest e ep opts w)) = refreshToken w"
    by (simp add: makeRequest_world eq)
next
  assume h: "chooseAccessToken e opts w = Inr (Some tok) \<and> tok \<noteq> []
      \<and> fetch e (length (sent w)) (mk_request ep tok opts) = Inr r1 \<and> status r1 = 401
      \<and> or_str (o_refreshToken opts) (refreshToken w) = Some rt \<and> rt \<noteq> []
      \<and> MS365_MCP_CLIENT_SECRET e = Some cs \<and> cs \<noteq> []
      \<and> lib_refreshAccessToken e rt
            (the (or_str (MS365_MCP_CLIENT_ID e) (Some ''084a3e9f-a9f4-43f7-89f9-d229cf97853e'')))
            cs (the (or_str (MS365_MCP_TENANT_ID e) (Some ''common''))) = Inl err"
  have eq: "requestWithRefresh e ep opts w
           = (Inl err, w\<lparr>sent := sent w @ [mk_request ep tok opts], refreshed := refreshed w @ [rt]\<rparr>)"
    using h refresh_refused [of e opts w tok ep r1 rt cs err] by blast
  show "fst (makeRequest e ep opts w) = Inl err"
    by (simp add: makeRequest_value eq)
  show "refreshed (snd (makeRequest e ep opts w)) = refreshed w @ [rt]"
    by (simp add: makeRequest_world eq)
  show "sent (snd (makeRequest e ep opts w)) = sent w @ [mk_request ep tok opts]"
    by (simp add: makeRequest_world eq)
  show "accessToken (snd (makeRequest e ep opts w)) = accessToken w"
    by (simp add: makeRequest_world eq)
  show "refreshToken (snd (makeRequest e ep opts w)) = refreshToken w"
    by (simp add: makeRequest_world eq)
next
  assume h: "\<not> truthy_str (or_str (o_refreshToken opts) (refreshToken w))"
  note n = no_refresh_token_no_refresh [OF h, of e ep]
  show "refreshed (snd (makeRequest e ep opts w)) = refreshed w"
    using n(1) by (simp add: makeRequest_world)
  show "accessToken (snd (makeRequest e ep opts w)) = accessToken w"
    using n(2) by (simp add: makeRequest_world)
  show "refreshToken (snd (makeRequest e ep opts w)) = refreshToken w"
    using n(3) by (simp add: makeRequest_world)
  show "length (sent (snd (makeRequest e ep opts w))) \<le> Suc (length (sent w))"
    using n(4) by (simp add: makeRequest_world)
next
  assume h: "chooseAccessToken e opts w = Inr (Some tok) \<and> tok \<noteq> []
      \<and> fetch e (length (sent w)) (mk_request ep tok opts) = Inr r1 \<and> status r1 \<noteq> 401"
  have eq: "requestWithRefresh e ep opts w
           = (checkStatus r1, w\<lparr>sent := sent w @ [mk_request ep tok opts]\<rparr>)"
    using h no_refresh_without_401 [of e opts w tok ep r1] by blast
  show "refreshed (snd (makeRequest e ep opts w)) = refreshed w"
    by (simp add: makeRequest_world eq)
  show "sent (snd (makeRequest e ep opts w)) = sent w @ [mk_request ep tok opts]"
    by (simp add: makeRequest_world eq)
  show "accessToken (snd (makeRequest e ep opts w)) = accessToken w"
    by (simp add: makeRequest_world eq)
  show "refreshToken (snd (makeRequest e ep opts w)) = refreshToken w"
    by (simp add: makeRequest_world eq)
qed

text \<open>
  C2 as stated promises the replaced token and the retry for every 401 with a refresh
  token. With no client secret configured the refresh throws before the token endpoint
  is called: the token is not replaced and the request is not retried.
\<close>

theorem refresh_without_secret_counterexample:
  "fetch no_secret_env (length (sent signed_in)) (mk_request ''/me'' ''old'' no_options)
     = Inr unauthorized
   \<and> status unauthorized = 401
   \<and> or_str (o_refreshToken no_options) (refreshToken signed_in) = Some ''r1''
   \<and> fst (makeRequest no_secret_env ''/me'' no_options signed_in)
       = Inl ''MS365_MCP_CLIENT_SECRET not configured''
   \<and> refreshed (snd (makeRequest no_secret_env ''/me'' no_options signed_in)) = []
   \<and> accessToken (snd (makeRequest no_secret_env ''/me'' no_options signed_in)) = Some ''old''
   \<and> sent (snd (makeRequest no_secret_env ''/me'' no_options signed_in))
       = [mk_request ''/me'' ''old'' no_options]"
  by code_simp

theorem refresh_once_retry_once_witness:
  "refreshed (snd (makeRequest rejecting_env ''/me'' no_options signed_in)) = [''r1'']
   \<and> accessToken (snd (makeRequest rejecting_env ''/me'' no_options signed_in)) = Some ''new''
   \<and> refreshToken (snd (makeRequest rejecting_env ''/me'' no_options signed_in)) = Some ''r2''
   \<and> sent (snd (makeRequest rejecting_env ''/me'' no_options signed_in))
       = [mk_request ''/me'' ''old'' no_options, mk_request ''/me'' ''new'' no_options]
   \<and> fst (makeRequest rejecting_env ''/me'' no_options signed_in) = Inl (api_error unauthorized)
   \<and> fst (makeRequest refreshing_env ''/me'' no_options signed_in) = Inr (JObj [])
   \<and> fst (makeRequest no_secret_env ''/me'' no_options signed_in)
       = Inl ''MS365_MCP_CLIENT_SECRET not configured''
   \<and> refreshed (snd (makeRequest no_secret_env ''/me'' no_options signed_in)) = []
   \<and> sent (snd (makeRequest no_secret_env ''/me'' no_options signed_in))
       = [mk_request ''/me'' ''old'' no_options]
   \<and> fst (makeRequest failing_refresh_env ''/me'' no_options signed_in) = Inl ''invalid_grant''
   \<and> refreshed (snd (makeRequest failing_refresh_env ''/me'' no_options signed_in)) = [''r1'']
   \<and> sent (snd (makeRequest failing_refresh_env ''/me'' no_options signed_in))
       = [mk_request ''/me'' ''old'' no_options]
   \<and> accessToken (snd (makeRequest failing_refresh_env ''/me'' no_options signed_in)) = Some ''old''
   \<and> refreshed (snd (makeRequest rejecting_env ''/me'' no_options signed_in_no_refresh)) = []
   \<and> accessToken (snd (makeRequest rejecting_env ''/me'' no_options signed_in_no_refresh))
       = Some ''old''
   \<and> refreshed (snd (makeRequest quiet_env ''/me'' no_options signed_in)) = []
   \<and> sent (snd (makeRequest quiet_env ''/me'' no_options signed_in))
       = [mk_request ''/me'' ''old'' no_options]"
proof -
  let ?tr = "\<lparr> access_token = ''new'', refresh_token = Some ''r2'' \<rparr>"
  let ?ok = "\<lparr> status = 200, statusText = ''OK'', body = ''data'', etag = None \<rparr>"
  have h0: "chooseAccessToken rejecting_env no_options signed_in = Inr (Some ''old'') \<and> ''old'' \<noteq> []
      \<and> fetch rejecting_env (length (sent signed_in)) (mk_request ''/me'' ''old'' no_options)
          = Inr unauthorized \<and> status unauthorized = 401
      \<and> or_str (o_refreshToken no_options) (refreshToken signed_in) = Some ''r1'' \<and> ''r1'' \<noteq> []"
    by (simp add: rejecting_env_def refreshing_env_def quiet_env_def signed_in_def fresh_world_def
        chooseAccessToken_def or_str_def no_options_def unauthorized_def)
  have s1: "MS365_MCP_CLIENT_SECRET rejecting_env = Some ''secret'' \<and> ''secret'' \<noteq> []
      \<and> lib_refreshAccessToken rejecting_env ''r1''
            (the (or_str (MS365_MCP_CLIENT_ID rejecting_env)
                    (Some ''084a3e9f-a9f4-43f7-89f9-d229cf97853e'')))
            ''secret'' (the (or_str (MS365_MCP_TENANT_ID rejecting_env) (Some ''common''))) = Inr ?tr
      \<and> access_token ?tr \<noteq> []"
    by (simp add: rejecting_env_def refreshing_env_def quiet_env_def)
  have t1: "truthy_str (MS365_MCP_CLIENT_SECRET rejecting_env)"
    by (simp add: rejecting_env_def refreshing_env_def)
  have f1: "fetch rejecting_env (Suc (length (sent signed_in))) (mk_request ''/me'' (access_token ?tr) no_options)
              = Inr unauthorized \<and> status unauthorized = 401"
    by (simp add: rejecting_env_def unauthorized_def)
  have h2: "chooseAccessToken refreshing_env no_options signed_in = Inr (Some ''old'') \<and> ''old'' \<noteq> []
      \<and> fetch refreshing_env (length (sent signed_in)) (mk_request ''/me'' ''old'' no_options)
          = Inr unauthorized \<and> status unauthorized = 401
      \<and> or_str (o_refreshToken no_options) (refreshToken signed_in) = Some ''r1'' \<and> ''r1'' \<noteq> []
      \<and> MS365_MCP_CLIENT_SECRET refreshing_env = Some ''secret'' \<and> ''secret'' \<noteq> []
      \<and> lib_refreshAccessToken refreshing_env ''r1''
            (the (or_str (MS365_MCP_CLIENT_ID refreshing_env)
                    (Some ''084a3e9f-a9f4-43f7-89f9-d229cf97853e'')))
            ''secret'' (the (or_str (MS365_MCP_TENANT_ID refreshing_env) (Some ''common''))) = Inr ?tr
      \<and> access_token ?tr \<noteq> []"
    by (simp add: refreshing_env_def quiet_env_def signed_in_def fresh_world_def
        chooseAccessToken_def or_str_def no_options_def unauthorized_def mk_request_def obj_spread_def obj_define_Nil obj_define_Cons is_array_index_def is_digit_def)
  have f2: "(case fetch refreshing_env (Suc (length (sent signed_in)))
                    (mk_request ''/me'' (access_token ?tr) no_options) of
               Inl err \<Rightarrow> Inl err
             | Inr r2 \<Rightarrow> map_sum id (decodeBody refreshing_env no_options) (checkStatus r2))
            = Inr (JObj [])"
    by (simp add: refreshing_env_def quiet_env_def mk_request_def obj_spread_def obj_define_Nil obj_define_Cons is_array_index_def is_digit_def no_options_def
        checkStatus_def ok_def decodeBody_def)
  have h3: "chooseAccessToken no_secret_env no_options signed_in = Inr (Some ''old'') \<and> ''old'' \<noteq> []
      \<and> fetch no_secret_env (length (sent signed_in)) (mk_request ''/me'' ''old'' no_options)
          = Inr unauthorized \<and> status unauthorized = 401
      \<and> or_str (o_refreshToken no_options) (refreshToken signed_in) = Some ''r1'' \<and> ''r1'' \<noteq> []
      \<and> \<not> truthy_str (MS365_MCP_CLIENT_SECRET no_secret_env)"
    by (simp add: no_secret_env_def rejecting_env_def refreshing_env_def quiet_env_def signed_in_def
        fresh_world_def chooseAccessToken_def or_str_def no_options_def unauthorized_def)
  have h4: "\<not> truthy_str (or_str (o_refreshToken no_options) (refreshToken signed_in_no_refresh))"
    by (simp add: signed_in_no_refresh_def fresh_world_def or_str_def no_options_def)
  have h5: "chooseAccessToken failing_refresh_env no_options signed_in = Inr (Some ''old'') \<and> ''old'' \<noteq> []
      \<and> fetch failing_refresh_env (length (sent signed_in)) (mk_request ''/me'' ''old'' no_options)
          = Inr unauthorized \<and> status unauthorized = 401
      \<and> or_str (o_refreshToken no_options) (refreshToken signed_in) = Some ''r1'' \<and> ''r1'' \<noteq> []
      \<and> MS365_MCP_CLIENT_SECRET failing_refresh_env = Some ''secret'' \<and> ''secret'' \<noteq> []
      \<and> lib_refreshAccessToken failing_refresh_env ''r1''
            (the (or_str (MS365_MCP_CLIENT_ID failing_refresh_env)
                    (Some ''084a3e9f-a9f4-43f7-89f9-d229cf97853e'')))
            ''secret'' (the (or_str (MS365_MCP_TENANT_ID failing_refresh_env) (Some ''common'')))
          = Inl ''invalid_grant''"
    by (simp add: failing_refresh_env_def rejecting_env_def refreshing_env_def quiet_env_def
        signed_in_def fresh_world_def chooseAccessToken_def or_str_def no_options_def unauthorized_def)
  have h6: "chooseAccessToken quiet_env no_options signed_in = Inr (Some ''old'') \<and> ''old'' \<noteq> []
      \<and> fetch quiet_env (length (sent signed_in)) (mk_request ''/me'' ''old'' no_options) = Inr ?ok
      \<and> status ?ok \<noteq> 401"
    by (simp add: quiet_env_def signed_in_def fresh_world_def chooseAccessToken_def or_str_def
        no_options_def)
  have w0: "refreshed signed_in = [] \<and> sent signed_in = [] \<and> refreshed signed_in_no_refresh = []
            \<and> accessToken signed_in_no_refresh = Some ''old'' \<and> accessToken signed_in = Some ''old''"
    by (simp add: signed_in_def signed_in_no_refresh_def fresh_world_def)
  note a = refresh_once_retry_once [where e = rejecting_env and opts = no_options and w = signed_in
      and tok = "''old''" and ep = "''/me''" and ?r1.0 = unauthorized and rt = "''r1''"
      and cs = "''secret''" and tr = ?tr and err = "[]"]
  note b = refresh_once_retry_once [where e = refreshing_env and opts = no_options and w = signed_in
      and tok = "''old''" and ep = "''/me''" and ?r1.0 = unauthorized and rt = "''r1''"
      and cs = "''secret''" and tr = ?tr and err = "[]"]
  note c = refresh_once_retry_once [where e = no_secret_env and opts = no_options and w = signed_in
      and tok = "''old''" and ep = "''/me''" and ?r1.0 = unauthorized and rt = "''r1''"
      and cs = "[]" and tr = ?tr and err = "[]"]
  note d = refresh_once_retry_once [where e = rejecting_env and opts = no_options
      and w = signed_in_no_refresh and ep = "''/me''" and tok = "[]" and ?r1.0 = unauthorized
      and rt = "[]" and cs = "[]" and tr = ?tr and err = "[]"]
  note f = refresh_once_retry_once [where e = failing_refresh_env and opts = no_options
      and w = signed_in and tok = "''old''" and ep = "''/me''" and ?r1.0 = unauthorized
      and rt = "''r1''" and cs = "''secret''" and tr = ?tr and err = "''invalid_grant''"]
  note g = refresh_once_retry_once [where e = quiet_env and opts = no_options
      and w = signed_in and tok = "''old''" and ep = "''/me''" and ?r1.0 = ?ok
      and rt = "[]" and cs = "[]" and tr = ?tr and err = "[]"]
  have A0: "refreshed (snd (makeRequest rejecting_env ''/me'' no_options signed_in)) = [''r1'']"
    using a h0 t1 w0 by simp
  have A: "accessToken (snd (makeRequest rejecting_env ''/me'' no_options signed_in)) = Some ''new''
   \<and> refreshToken (snd (makeRequest rejecting_env ''/me'' no_options signed_in)) = Some ''r2''
   \<and> sent (snd (makeRequest rejecting_env ''/me'' no_options signed_in))
       = [mk_request ''/me'' ''old'' no_options, mk_request ''/me'' ''new'' no_options]
   \<and> fst (makeRequest rejecting_env ''/me'' no_options signed_in) = Inl (api_error unauthorized)"
    using a h0 s1 f1 w0 by auto
  have B: "fst (makeRequest refreshing_env ''/me'' no_options signed_in) = Inr (JObj [])"
    using b h2 f2 by simp
  have C: "fst (makeRequest no_secret_env ''/me'' no_options signed_in)
       = Inl ''MS365_MCP_CLIENT_SECRET not configured''
   \<and> refreshed (snd (makeRequest no_secret_env ''/me'' no_options signed_in)) = []
   \<and> sent (snd (makeRequest no_secret_env ''/me'' no_options signed_in))
       = [mk_request ''/me'' ''old'' no_options]"
    using c h3 w0 by simp
  have D: "refreshed (snd (makeRequest rejecting_env ''/me'' no_options signed_in_no_refresh)) = []
   \<and> accessToken (snd (makeRequest rejecting_env ''/me'' no_options signed_in_no_refresh))
       = Some ''old''"
    using d h4 w0 by simp
  have F: "fst (makeRequest failing_refresh_env ''/me'' no_options signed_in) = Inl ''invalid_grant''
   \<and> refreshed (snd (makeRequest failing_refresh_env ''/me'' no_options signed_in)) = [''r1'']
   \<and> sent (snd (makeRequest failing_refresh_env ''/me'' no_options signed_in))
       = [mk_request ''/me'' ''old'' no_options]
   \<and> accessToken (snd (makeRequest failing_refresh_env ''/me'' no_options signed_in)) = Some ''old''"
    using f h5 w0 by simp
  have G: "refreshed (snd (makeRequest quiet_env ''/me'' no_options signed_in)) = []
   \<and> sent (snd (makeRequest quiet_env ''/me'' no_options signed_in))
       = [mk_request ''/me'' ''old'' no_options]"
    using g h6 w0 by simp
  show ?thesis using A0 A B C D F G by simp
qed

subsection \<open>Header capture\<close>

text \<open>
  The metadata are filled only for a decoded body with the key \<open>_headers\<close>, and header
  capture never adds that key.
\<close>

lemma no_meta_without_headers_key:
  "\<not> has_headers_key d \<Longrightarrow> meta (formatJsonResponse e w d rawResponse excludeResponse) = None"
  by (simp add: formatJsonResponse_def respond_def)

lemma decodeBody_headers_key:
  "has_headers_key (decodeBody e opts r) \<Longrightarrow>
     has_headers_key (decodeBody e (opts\<lparr>o_includeHeaders := False\<rparr>) r)"
  by (auto simp: decodeBody_def has_headers_key_def Let_def map_of_obj_define split: json.splits option.splits if_splits)

text \<open>
  C7. With header capture the entity tag should reach the side-channel metadata and the
  body should be what it is without header capture. \<open>makeRequest\<close> instead writes the
  tag into the decoded body under the key \<open>_etag\<close>, and never produces the \<open>_headers\<close>
  key that \<open>formatJsonResponse\<close> looks for before it fills the metadata: the body gains a
  field and the metadata stay absent.
\<close>

theorem include_headers_changes_body:
  "content_text (fst (graphRequest etag_env ''/me'' (no_options\<lparr>o_includeHeaders := True\<rparr>) signed_in_no_refresh))
     = Json (JObj [(''id'', JStr ''1''), (''_etag'', JStr ''abc'')])
   \<and> structuredContent (fst (graphRequest etag_env ''/me'' (no_options\<lparr>o_includeHeaders := True\<rparr>) signed_in_no_refresh))
     = JObj [(''id'', JStr ''1''), (''_etag'', JStr ''abc'')]
   \<and> meta (fst (graphRequest etag_env ''/me'' (no_options\<lparr>o_includeHeaders := True\<rparr>) signed_in_no_refresh))
     = None
   \<and> content_text (fst (graphRequest etag_env ''/me'' no_options signed_in_no_refresh))
     = Json (JObj [(''id'', JStr ''1'')])
   \<and> meta (fst (graphRequest etag_env ''/me'' no_options signed_in_no_refresh)) = None"
  by code_simp

subsection \<open>Parameter binding\<close>

text \<open>
  C5. Binding a Path parameter should leave no placeholder of that name in the path.
  The two \<open>replace\<close> calls take a string pattern, so each replaces the first occurrence
  only: in \<open>/a/{id}/b/{id}/c/:id/d/:id\<close> the second \<open>{id}\<close> and the second \<open>:id\<close> stay.
\<close>

theorem path_placeholder_left_in_place:
  "bindPath ''/a/{id}/b/{id}/c/:id/d/:id'' ''id'' (JStr ''x y'') = ''/a/x%20y/b/{id}/c/x%20y/d/:id''
   \<and> fst (buildRequest twice_tool None [(''id'', JStr ''x y'')]) = ''/a/x%20y/b/{id}/c/x%20y/d/:id''
   \<and> str_includes (fst (buildRequest twice_tool None [(''id'', JStr ''x y'')])) ''{id}''
   \<and> str_includes (fst (buildRequest twice_tool None [(''id'', JStr ''x y'')])) '':id''"
  by code_simp

lemma odata_name_facts:
  assumes "n \<in> set odataParams"
  shows "normalizedParamName n = n" and "normalizedParamName (CHR ''$'' # n) = n"
    and "isOdataParam n" and "isOdataParam (CHR ''$'' # n)"
    and "fixedParamName n = CHR ''$'' # n" and "fixedParamName (CHR ''$'' # n) = CHR ''$'' # n"
    and "n \<notin> set controlParams" and "CHR ''$'' # n \<notin> set controlParams"
    and "n \<noteq> ''body''" and "CHR ''$'' # n \<noteq> ''body''"
proof -
  have low: "toLowerCase n = n"
    using assms by (auto simp: odataParams_def toLowerCase_def lower_char_def)
  have nd: "\<not> startsWith n ''$''"
    using assms by (auto simp: odataParams_def startsWith_def)
  show n1: "normalizedParamName n = n"
    using nd by (simp add: normalizedParamName_def)
  show n2: "normalizedParamName (CHR ''$'' # n) = n"
    by (simp add: normalizedParamName_def startsWith_def)
  show o1: "isOdataParam n"
    using assms by (simp add: isOdataParam_def n1 low)
  show o2: "isOdataParam (CHR ''$'' # n)"
    using assms by (simp add: isOdataParam_def n2 low)
  show "fixedParamName n = CHR ''$'' # n"
    using o1 by (simp add: fixedParamName_def n1 low)
  show "fixedParamName (CHR ''$'' # n) = CHR ''$'' # n"
    using o2 by (simp add: fixedParamName_def n2 low)
  show "n \<notin> set controlParams"
    using assms by (auto simp: odataParams_def controlParams_def)
  show "CHR ''$'' # n \<notin> set controlParams"
    by (simp add: controlParams_def)
  show "n \<noteq> ''body''"
    using assms by (auto simp: odataParams_def)
  show "CHR ''$'' # n \<noteq> ''body''"
    by simp
qed

lemma find_query_def:
  assumes "\<forall>d \<in> set defs. P d \<longrightarrow> p_type d = Query" and "\<exists>d \<in> set defs. P d"
  shows "\<exists>d. find P defs = Some d \<and> p_type d = Query"
  using assms by (induction defs) auto

lemma bindParam_odata:
  assumes n: "n \<in> set odataParams"
    and q: "\<forall>d \<in> set defs. p_name d = n \<or> p_name d = CHR ''$'' # n \<longrightarrow> p_type d = Query"
    and ex: "\<exists>d \<in> set defs. p_name d = n"
  shows "bindParam defs b (n, v) = b\<lparr>b_queryParams := obj_set (b_queryParams b) (CHR ''$'' # n) (to_string v)\<rparr>"
    and "bindParam defs b (CHR ''$'' # n, v) = b\<lparr>b_queryParams := obj_set (b_queryParams b) (CHR ''$'' # n) (to_string v)\<rparr>"
proof -
  note f = odata_name_facts [OF n]
  have "\<exists>d. find (\<lambda>p. p_name p = n \<or> (isOdataParam n \<and> p_name p = normalizedParamName n)) defs = Some d
            \<and> p_type d = Query"
    using q ex by (intro find_query_def) (auto simp: f)
  then obtain d1 where d1: "findParamDef defs n = Some d1" "p_type d1 = Query"
    by (auto simp: findParamDef_def)
  have "\<exists>d. find (\<lambda>p. p_name p = CHR ''$'' # n \<or> (isOdataParam (CHR ''$'' # n)
                   \<and> p_name p = normalizedParamName (CHR ''$'' # n))) defs = Some d \<and> p_type d = Query"
    using q ex by (intro find_query_def) (auto simp: f)
  then obtain d2 where d2: "findParamDef defs (CHR ''$'' # n) = Some d2" "p_type d2 = Query"
    by (auto simp: findParamDef_def)
  show "bindParam defs b (n, v) = b\<lparr>b_queryParams := obj_set (b_queryParams b) (CHR ''$'' # n) (to_string v)\<rparr>"
    using d1 f(5,7) by (simp add: bindParam_def)
  show "bindParam defs b (CHR ''$'' # n, v) = b\<lparr>b_queryParams := obj_set (b_queryParams b) (CHR ''$'' # n) (to_string v)\<rparr>"
    using d2 f(6,8) by (simp add: bindParam_def)
qed

lemma map_of_other_key:
  "k \<noteq> a \<Longrightarrow> k \<noteq> b \<Longrightarrow> map_of (pre @ (a, v) # post) k = map_of (pre @ (b, v) # post) k"
  by (induction pre) auto

lemma buildRequest_cong:
  assumes "bindParams t p1 = bindParams t p2"
    and "map_of p1 ''timezone'' = map_of p2 ''timezone''"
    and "map_of p1 ''includeHeaders'' = map_of p2 ''includeHeaders''"
    and "map_of p1 ''excludeResponse'' = map_of p2 ''excludeResponse''"
  shows "buildRequest t config p1 = buildRequest t config p2"
  unfolding buildRequest_def assms ..

lemma bindParam_undeclared:
  assumes n: "n \<in> set odataParams"
    and none: "\<forall>d \<in> set defs. p_name d \<noteq> n"
  shows "bindParam defs b (n, v) = b"
proof -
  note f = odata_name_facts [OF n]
  have "find (\<lambda>p. p_name p = n \<or> (isOdataParam n \<and> p_name p = normalizedParamName n)) defs = None"
    using none by (simp add: find_None_iff f)
  then show ?thesis
    using f(7,9) by (simp add: bindParam_def findParamDef_def)
qed

lemma bindParam_undeclared_prefixed:
  assumes n: "n \<in> set odataParams"
    and none: "\<forall>d \<in> set defs. p_name d \<noteq> n \<and> p_name d \<noteq> CHR ''$'' # n"
  shows "bindParam defs b (CHR ''$'' # n, v) = b"
proof -
  note f = odata_name_facts [OF n]
  have "find (\<lambda>p. p_name p = CHR ''$'' # n
                  \<or> (isOdataParam (CHR ''$'' # n) \<and> p_name p = normalizedParamName (CHR ''$'' # n))) defs
          = None"
    using none by (simp add: find_None_iff f)
  then show ?thesis
    using f(8,10) by (simp add: bindParam_def findParamDef_def)
qed

lemma bindParam_prefixed_only:
  assumes n: "n \<in> set odataParams"
    and q: "\<forall>d \<in> set defs. p_name d = CHR ''$'' # n \<longrightarrow> p_type d = Query"
    and none: "\<forall>d \<in> set defs. p_name d \<noteq> n"
    and ex: "\<exists>d \<in> set defs. p_name d = CHR ''$'' # n"
  shows "bindParam defs b (CHR ''$'' # n, v)
           = b\<lparr>b_queryParams := obj_set (b_queryParams b) (CHR ''$'' # n) (to_string v)\<rparr>"
proof -
  note f = odata_name_facts [OF n]
  have "\<exists>d. find (\<lambda>p. p_name p = CHR ''$'' # n \<or> (isOdataParam (CHR ''$'' # n)
                   \<and> p_name p = normalizedParamName (CHR ''$'' # n))) defs = Some d \<and> p_type d = Query"
    using q none ex by (intro find_query_def) (auto simp: f)
  then obtain d where d: "findParamDef defs (CHR ''$'' # n) = Some d" "p_type d = Query"
    by (auto simp: findParamDef_def)
  show ?thesis
    using d f(6,8) by (simp add: bindParam_def)
qed

text \<open>
  C6 as amended. Let \<open>n\<close> be one of the nine reserved query names. When the endpoint
  declares a parameter under the unprefixed name \<open>n\<close>, and what it declares under \<open>n\<close> or
  \<open>$n\<close> are Query parameters, supplying the value as \<open>n\<close> or as \<open>$n\<close> makes the same entry
  in the query, the key \<open>$n\<close> with the value as a string, and the request built from the
  whole parameter list is the same. When the endpoint declares the parameter under the
  prefixed name \<open>$n\<close> only, as a Query parameter, the value supplied as \<open>$n\<close> makes that
  entry and the value supplied as \<open>n\<close> is dropped. When the endpoint declares neither
  name, both are dropped.
\<close>

theorem reserved_name_binding:
  assumes "n \<in> set odataParams"
  shows "((\<exists>d \<in> set (t_parameters t). p_name d = n)
          \<and> (\<forall>d \<in> set (t_parameters t). p_name d = n \<or> p_name d = CHR ''$'' # n \<longrightarrow> p_type d = Query)
          \<longrightarrow> bindParam (t_parameters t) b (n, v)
                = b\<lparr>b_queryParams := obj_set (b_queryParams b) (CHR ''$'' # n) (to_string v)\<rparr>
            \<and> bindParam (t_parameters t) b (CHR ''$'' # n, v)
                = b\<lparr>b_queryParams := obj_set (b_queryParams b) (CHR ''$'' # n) (to_string v)\<rparr>
            \<and> buildRequest t config (pre @ (n, v) # post)
                = buildRequest t config (pre @ (CHR ''$'' # n, v) # post))
       \<and> ((\<forall>d \<in> set (t_parameters t). p_name d \<noteq> n)
          \<and> (\<exists>d \<in> set (t_parameters t). p_name d = CHR ''$'' # n)
          \<and> (\<forall>d \<in> set (t_parameters t). p_name d = CHR ''$'' # n \<longrightarrow> p_type d = Query)
          \<longrightarrow> bindParam (t_parameters t) b (n, v) = b
            \<and> bindParam (t_parameters t) b (CHR ''$'' # n, v)
                = b\<lparr>b_queryParams := obj_set (b_queryParams b) (CHR ''$'' # n) (to_string v)\<rparr>)
       \<and> ((\<forall>d \<in> set (t_parameters t). p_name d \<noteq> n \<and> p_name d \<noteq> CHR ''$'' # n)
          \<longrightarrow> bindParam (t_parameters t) b (n, v) = b
            \<and> bindParam (t_parameters t) b (CHR ''$'' # n, v) = b)"
proof (intro conjI impI)
  assume h: "(\<exists>d \<in> set (t_parameters t). p_name d = n)
          \<and> (\<forall>d \<in> set (t_parameters t). p_name d = n \<or> p_name d = CHR ''$'' # n \<longrightarrow> p_type d = Query)"
  then have q: "\<forall>d \<in> set (t_parameters t). p_name d = n \<or> p_name d = CHR ''$'' # n \<longrightarrow> p_type d = Query"
    and ex: "\<exists>d \<in> set (t_parameters t). p_name d = n"
    by blast+
  note s = bindParam_odata [OF assms q ex]
  note f = odata_name_facts [OF assms]
  show "bindParam (t_parameters t) b (n, v)
          = b\<lparr>b_queryParams := obj_set (b_queryParams b) (CHR ''$'' # n) (to_string v)\<rparr>"
    by (rule s(1))
  show "bindParam (t_parameters t) b (CHR ''$'' # n, v)
          = b\<lparr>b_queryParams := obj_set (b_queryParams b) (CHR ''$'' # n) (to_string v)\<rparr>"
    by (rule s(2))
  have "bindParams t (pre @ (n, v) # post) = bindParams t (pre @ (CHR ''$'' # n, v) # post)"
    by (simp add: bindParams_def s)
  moreover have "map_of (pre @ (n, v) # post) k = map_of (pre @ (CHR ''$'' # n, v) # post) k"
    if "k \<in> set controlParams" for k
    using that f(7,8) by (intro map_of_other_key) auto
  ultimately show "buildRequest t config (pre @ (n, v) # post)
           = buildRequest t config (pre @ (CHR ''$'' # n, v) # post)"
    by (intro buildRequest_cong) (simp_all add: controlParams_def)
next
  assume h: "(\<forall>d \<in> set (t_parameters t). p_name d \<noteq> n)
          \<and> (\<exists>d \<in> set (t_parameters t). p_name d = CHR ''$'' # n)
          \<and> (\<forall>d \<in> set (t_parameters t). p_name d = CHR ''$'' # n \<longrightarrow> p_type d = Query)"
  show "bindParam (t_parameters t) b (n, v) = b"
    using h by (intro bindParam_undeclared [OF assms]) blast
  show "bindParam (t_parameters t) b (CHR ''$'' # n, v)
          = b\<lparr>b_queryParams := obj_set (b_queryParams b) (CHR ''$'' # n) (to_string v)\<rparr>"
    using h by (intro bindParam_prefixed_only [OF assms]) blast+
next
  assume h: "\<forall>d \<in> set (t_parameters t). p_name d \<noteq> n \<and> p_name d \<noteq> CHR ''$'' # n"
  show "bindParam (t_parameters t) b (n, v) = b"
    using h by (intro bindParam_undeclared [OF assms]) blast
  show "bindParam (t_parameters t) b (CHR ''$'' # n, v) = b"
    using h by (rule bindParam_undeclared_prefixed [OF assms])
qed

text \<open>
  C6 as stated promises the same entry on every endpoint. An endpoint that declares the
  parameter as \<open>$top\<close> binds the value supplied as \<open>$top\<close> and drops the value
  supplied as \<open>top\<close>: the lookup compares the declared name with the supplied name and
  with the supplied name stripped of its prefix, never with the prefix added.
\<close>

theorem unprefixed_name_dropped:
  "buildRequest prefixed_messages_tool None [(''$top'', JNum 5)]
     = (''/me/messages?%24top=5'', no_options\<lparr>o_method := Some ''GET'', o_headers := Some []\<rparr>)
   \<and> buildRequest prefixed_messages_tool None [(''top'', JNum 5)]
     = (''/me/messages'', no_options\<lparr>o_method := Some ''GET'', o_headers := Some []\<rparr>)"
  by code_simp

theorem reserved_name_binding_witness:
  "buildRequest messages_tool None [(''top'', JNum 5)] = buildRequest messages_tool None [(''$top'', JNum 5)]
   \<and> fst (buildRequest messages_tool None [(''top'', JNum 5)]) = ''/me/messages?%24top=5''
   \<and> bindParam (t_parameters prefixed_messages_tool)
        \<lparr> b_path = ''/me/messages'', b_queryParams = [], b_headers = [], b_body = JNull \<rparr>
        (''top'', JNum 5)
       = \<lparr> b_path = ''/me/messages'', b_queryParams = [], b_headers = [], b_body = JNull \<rparr>
   \<and> bindParam (t_parameters prefixed_messages_tool)
        \<lparr> b_path = ''/me/messages'', b_queryParams = [], b_headers = [], b_body = JNull \<rparr>
        (''$top'', JNum 5)
       = \<lparr> b_path = ''/me/messages'', b_queryParams = [(''$top'', ''5'')], b_headers = [],
           b_body = JNull \<rparr>
   \<and> bindParam (t_parameters send_mail_tool)
        \<lparr> b_path = ''/me/sendMail'', b_queryParams = [], b_headers = [], b_body = JNull \<rparr>
        (''$top'', JNum 5)
       = \<lparr> b_path = ''/me/sendMail'', b_queryParams = [], b_headers = [], b_body = JNull \<rparr>"
proof -
  let ?b = "\<lparr> b_path = ''/me/messages'', b_queryParams = [], b_headers = [], b_body = JNull \<rparr>"
  let ?m = "\<lparr> b_path = ''/me/sendMail'', b_queryParams = [], b_headers = [], b_body = JNull \<rparr>"
  have n: "''top'' \<in> set odataParams"
    by (simp add: odataParams_def)
  have h1: "(\<exists>d \<in> set (t_parameters messages_tool). p_name d = ''top'')
     \<and> (\<forall>d \<in> set (t_parameters messages_tool).
           p_name d = ''top'' \<or> p_name d = CHR ''$'' # ''top'' \<longrightarrow> p_type d = Query)"
    by (simp add: messages_tool_def)
  have h2: "(\<forall>d \<in> set (t_parameters prefixed_messages_tool). p_name d \<noteq> ''top'')
     \<and> (\<exists>d \<in> set (t_parameters prefixed_messages_tool). p_name d = CHR ''$'' # ''top'')
     \<and> (\<forall>d \<in> set (t_parameters prefixed_messages_tool).
           p_name d = CHR ''$'' # ''top'' \<longrightarrow> p_type d = Query)"
    by (simp add: prefixed_messages_tool_def messages_tool_def)
  have h3: "\<forall>d \<in> set (t_parameters send_mail_tool).
              p_name d \<noteq> ''top'' \<and> p_name d \<noteq> CHR ''$'' # ''top''"
    by (simp add: send_mail_tool_def)
  have v: "Number_toString 5 = ''5''" "obj_set [] ''$top'' ''5'' = [(''$top'', ''5'')]"
    by code_simp+
  have p: "fst (buildRequest messages_tool None [(''top'', JNum 5)]) = ''/me/messages?%24top=5''"
    by code_simp
  have 1: "buildRequest messages_tool None [(''top'', JNum 5)]
             = buildRequest messages_tool None [(''$top'', JNum 5)]"
    using reserved_name_binding [OF n, of messages_tool _ "JNum 5" None "[]" "[]"] h1 by simp
  have 2: "bindParam (t_parameters prefixed_messages_tool) ?b (''top'', JNum 5) = ?b
           \<and> bindParam (t_parameters prefixed_messages_tool) ?b (''$top'', JNum 5)
               = ?b\<lparr>b_queryParams := obj_set (b_queryParams ?b) ''$top'' (to_string (JNum 5))\<rparr>"
    using reserved_name_binding [OF n, of prefixed_messages_tool ?b "JNum 5" None "[]" "[]"] h2 by simp
  have 3: "bindParam (t_parameters send_mail_tool) ?m (''$top'', JNum 5) = ?m"
    using reserved_name_binding [OF n, of send_mail_tool ?m "JNum 5" None "[]" "[]"] h3 by simp
  show ?thesis
    using 1 2 3 p by (simp add: v)
qed

subsection \<open>Page aggregation\<close>

lemma queryParams_other_fields:
  "o_accessToken (opts\<lparr>o_queryParams := q\<rparr>) = o_accessToken opts"
  "o_refreshToken (opts\<lparr>o_queryParams := q\<rparr>) = o_refreshToken opts"
  "o_includeHeaders (opts\<lparr>o_queryParams := q\<rparr>) = o_includeHeaders opts"
  "o_rawResponse (opts\<lparr>o_queryParams := q\<rparr>) = o_rawResponse opts"
  "o_excludeResponse (opts\<lparr>o_queryParams := q\<rparr>) = o_excludeResponse opts"
  by simp_all

lemma performRequest_queryParams:
  "performRequest e p tok (opts\<lparr>o_queryParams := q\<rparr>) w = performRequest e p tok opts w"
  by (simp add: performRequest_def mk_request_def)

lemma requestWithRefresh_queryParams:
  "requestWithRefresh e p (opts\<lparr>o_queryParams := q\<rparr>) w = requestWithRefresh e p opts w"
  unfolding requestWithRefresh_def performRequest_queryParams chooseAccessToken_def
    queryParams_other_fields ..

lemma queryParams_ignored:
  "graphRequest e p (opts\<lparr>o_queryParams := q\<rparr>) w = graphRequest e p opts w"
  unfolding graphRequest_def makeRequest_def requestWithRefresh_queryParams decodeBody_def
    queryParams_other_fields ..

lemma media_options:
  "buildRequest media_tool None [(''fetchAllPages'', JBool True)] = (''/me/messages'', media_options_rec)"
  by code_simp

lemma media_page_request:
  assumes "accessToken w = Some ''old''" "outputFormat w = JsonFormat"
  shows "graphRequest paging_env ''/me/messages'' media_options_rec w
           = (\<lparr> content_text = Json first_page, meta = None, isError = False,
                 structuredContent = first_page \<rparr>,
              w\<lparr>sent := sent w @ [mk_request ''/me/messages'' ''old'' media_options_rec]\<rparr>)"
proof -
  have u: "rq_url (mk_request ''/me/messages'' ''old'' media_options_rec)
             = ''https://graph.microsoft.com/v1.0/me/messages''"
    by (simp add: mk_request_def)
  have f: "fetch paging_env n (mk_request ''/me/messages'' ''old'' media_options_rec)
             = Inr \<lparr> status = 200, statusText = ''OK'', body = page1, etag = None \<rparr>" for n
    by (simp add: paging_env_def u)
  have c: "chooseAccessToken paging_env media_options_rec w = Inr (Some ''old'')"
    using assms by (simp add: chooseAccessToken_def media_options_rec_def no_options_def or_str_def)
  have p: "JSON_parse paging_env page1 = Some first_page"
    by (simp add: paging_env_def first_page_def)
  have ne: "page1 \<noteq> []"
    by (simp add: page1_def)
  have r: "requestWithRefresh paging_env ''/me/messages'' media_options_rec w
             = (Inr \<lparr> status = 200, statusText = ''OK'', body = page1, etag = None \<rparr>,
                w\<lparr>sent := sent w @ [mk_request ''/me/messages'' ''old'' media_options_rec]\<rparr>)"
    by (simp add: requestWithRefresh_def c performRequest_def Let_def f checkStatus_def ok_def)
  have m: "makeRequest paging_env ''/me/messages'' media_options_rec w
             = (Inr first_page,
                w\<lparr>sent := sent w @ [mk_request ''/me/messages'' ''old'' media_options_rec]\<rparr>)"
    unfolding makeRequest_def r
    using ne by (simp add: decodeBody_def p media_options_rec_def no_options_def)
  show ?thesis
    using assms(2)
    unfolding graphRequest_def m
    by (simp add: formatJsonResponse_def media_options_rec_def no_options_def
        has_headers_key_def first_page_def respond_def serializeData_def)
qed

lemma followPages_repeats:
  assumes "accessToken w = Some ''old''" "outputFormat w = JsonFormat" "k \<le> 100" "100 - k = n"
  shows "followPages paging_env media_options_rec (JArr xs)
           (Some (JStr ''https://graph.microsoft.com/v1.0/me/messages?$skip=1'')) k w
         = (Some (JArr (xs @ replicate n (JNum 1)), 100),
            w\<lparr>sent := sent w @ replicate n (mk_request ''/me/messages'' ''old'' media_options_rec)\<rparr>)"
  using assms
proof (induction n arbitrary: k w xs)
  case 0
  then have "k = 100" by simp
  then show ?case
    by (subst followPages.simps) simp
next
  case (Suc n)
  let ?rq = "mk_request ''/me/messages'' ''old'' media_options_rec"
  let ?w1 = "w\<lparr>sent := sent w @ [?rq]\<rparr>"
  have k: "k < 100" "Suc k \<le> 100" "100 - Suc k = n"
    using Suc.prems by simp_all
  have u: "URL_parse paging_env ''https://graph.microsoft.com/v1.0/me/messages?$skip=1''
             = Some \<lparr> pathname = ''/v1.0/me/messages'', search = ''?$skip=1'',
                       searchParams = [(''$skip'', ''1'')] \<rparr>"
    by (simp add: paging_env_def)
  have rp: "replace_first ''/v1.0/me/messages'' ''/v1.0'' [] = ''/me/messages''"
    by (simp add: startsWith_def)
  have g: "graphRequest paging_env ''/me/messages'' (media_options_rec\<lparr>o_queryParams := q\<rparr>) w
             = (\<lparr> content_text = Json first_page, meta = None, isError = False,
                   structuredContent = first_page \<rparr>, ?w1)" for q
    unfolding queryParams_ignored using Suc.prems(1,2) by (rule media_page_request)
  have ih: "followPages paging_env media_options_rec (JArr (xs @ [JNum 1]))
              (Some (JStr ''https://graph.microsoft.com/v1.0/me/messages?$skip=1'')) (Suc k) ?w1
            = (Some (JArr ((xs @ [JNum 1]) @ replicate n (JNum 1)), 100),
               ?w1\<lparr>sent := sent ?w1 @ replicate n ?rq\<rparr>)"
    using Suc.prems(1,2) k by (intro Suc.IH) simp_all
  show ?case
    apply (subst followPages.simps)
    apply (simp add: k u rp g startsWith_def text_truthy_def parse_text_def)
    apply (simp add: first_page_def concat_page_def ih [unfolded first_page_def]
                replicate_app_Cons_same)
    done
qed

text \<open>The loop stops at 100 pages.\<close>

lemma followPages_page_bound:
  "followPages e opts allItems nextLink pageCount w = (Some (items, n), w') \<Longrightarrow> pageCount \<le> 100
     \<Longrightarrow> pageCount \<le> n \<and> n \<le> 100"
proof (induction e opts allItems nextLink pageCount w rule: followPages.induct)
  case (1 e opts allItems nextLink pageCount w)
  show ?case
  proof (cases "truthy_opt nextLink \<and> pageCount < 100")
    case False
    then show ?thesis
      using "1.prems" by (subst (asm) followPages.simps) auto
  next
    case True
    then have s: "Suc pageCount \<le> 100" by simp
    note ih = "1.IH" [OF True _ sym _ _ _ _ _ s]
    show ?thesis
      using "1.prems"
      apply (subst (asm) followPages.simps)
      apply (simp add: True split: option.splits prod.splits if_splits)
      apply (auto dest: ih)
      done
  qed
qed

text \<open>
  C3. The request for the next page should carry the query of the cursor. The loop puts
  the cursor's query parameters into \<open>options.queryParams\<close>, which \<open>performRequest\<close> never
  reads, and passes on the cursor's path alone: whatever the query parameters are, the
  request is the one without them. Against the two-page server the call for all pages of
  \<open>media_tool\<close> therefore never asks for \<open>/me/messages?$skip=1\<close>: it sends the first
  request a hundred times and returns the first page's item a hundred times.
\<close>

theorem cursor_query_not_sent:
  "graphRequest e p (opts\<lparr>o_queryParams := q\<rparr>) w = graphRequest e p opts w
   \<and> executeGraphTool paging_env media_tool None [(''fetchAllPages'', JBool True)] signed_in_no_refresh
       = (\<lparr> content_text = Json (JObj [(''value'', JArr (replicate 100 (JNum 1)))]),
             meta = None, isError = False \<rparr>,
          signed_in_no_refresh
            \<lparr>sent := replicate 100 (mk_request ''/me/messages'' ''old'' media_options_rec)\<rparr>)
   \<and> rq_url (mk_request ''/me/messages'' ''old'' media_options_rec)
       = ''https://graph.microsoft.com/v1.0/me/messages''"
proof -
  let ?rq = "mk_request ''/me/messages'' ''old'' media_options_rec"
  let ?w1 = "signed_in_no_refresh\<lparr>sent := [?rq]\<rparr>"
  have w: "accessToken signed_in_no_refresh = Some ''old''" "outputFormat signed_in_no_refresh = JsonFormat"
    "sent signed_in_no_refresh = []"
    by (simp_all add: signed_in_no_refresh_def fresh_world_def)
  have g: "graphRequest paging_env ''/me/messages'' media_options_rec signed_in_no_refresh
             = (\<lparr> content_text = Json first_page, meta = None, isError = False,
                   structuredContent = first_page \<rparr>, ?w1)"
    using media_page_request [OF w(1,2)] by (simp add: w(3))
  have r: "JNum 1 # replicate 99 (JNum 1) = replicate 100 (JNum 1)"
    "?rq # replicate 99 ?rq = replicate 100 ?rq"
    by (simp_all add: numeral_eq_Suc)
  have l: "followPages paging_env media_options_rec (JArr [JNum 1])
             (Some (JStr ''https://graph.microsoft.com/v1.0/me/messages?$skip=1'')) (Suc 0) ?w1
           = (Some (JArr (replicate 100 (JNum 1)), 100),
              signed_in_no_refresh\<lparr>sent := replicate 100 ?rq\<rparr>)"
    using followPages_repeats [of ?w1 "Suc 0" 99 "[JNum 1]"] w(1,2) r by simp
  have f: "fetchAllPages paging_env media_options_rec
             \<lparr> content_text = Json first_page, meta = None, isError = False,
               structuredContent = first_page \<rparr> ?w1
           = (Json (JObj [(''value'', JArr (replicate 100 (JNum 1)))]),
              signed_in_no_refresh\<lparr>sent := replicate 100 ?rq\<rparr>)"
    unfolding fetchAllPages_def
    by (simp add: parse_text_def first_page_def l obj_delete_def obj_set_Cons is_array_index_def
        is_digit_def)
  have "executeGraphTool paging_env media_tool None [(''fetchAllPages'', JBool True)] signed_in_no_refresh
       = (\<lparr> content_text = Json (JObj [(''value'', JArr (replicate 100 (JNum 1)))]),
             meta = None, isError = False \<rparr>,
          signed_in_no_refresh\<lparr>sent := replicate 100 ?rq\<rparr>)"
    unfolding executeGraphTool_def media_options
    by (simp add: g f text_truthy_def)
  moreover have "rq_url ?rq = ''https://graph.microsoft.com/v1.0/me/messages''"
    by (simp add: mk_request_def)
  ultimately show ?thesis
    using queryParams_ignored by simp
qed

text \<open>
  Unless the response is passed on raw, the payload that the client returns has no
  \<open>@odata.nextLink\<close>.
\<close>

lemma removeODataProps_entries_none:
  "startsWith k ''@odata.'' \<Longrightarrow> map_of (removeODataProps_entries kvs) k = None"
  by (induction kvs) auto

lemma no_cursor_after_stripping:
  "get_prop (removeODataProps (makeStructured d)) ''@odata.nextLink'' = None"
  by (cases d) (simp_all add: removeODataProps_entries_none startsWith_def)

lemma no_cursor_in_default_response:
  assumes "\<not> rawResponse" "\<not> has_headers_key d"
  shows "get_prop (structuredContent (formatJsonResponse e w d rawResponse excludeResponse))
           ''@odata.nextLink'' = None"
  using assms
  by (simp add: formatJsonResponse_def respond_def success_only_def no_cursor_after_stripping)

text \<open>
  C4. A call for all pages should return the items of every page the server has, and
  a call for one page should keep the cursor. For an endpoint that is not media
  content the client strips every \<open>@odata.\<close> key, the cursor among them, before the
  pagination block reads the text: against the two-page server the call for all pages
  of the message listing sends one request and returns the first page's single item, and
  the call for one page returns no cursor.
\<close>

theorem all_pages_stop_after_first:
  "executeGraphTool paging_env messages_tool None [(''fetchAllPages'', JBool True)] signed_in_no_refresh
     = (\<lparr> content_text = Json (JObj [(''value'', JArr [JNum 1])]), meta = None, isError = False \<rparr>,
        signed_in_no_refresh
          \<lparr>sent := [mk_request ''/me/messages'' ''old''
                      (no_options\<lparr>o_method := Some ''GET'', o_headers := Some []\<rparr>)]\<rparr>)
   \<and> fst (executeGraphTool paging_env messages_tool None [] signed_in_no_refresh)
     = \<lparr> content_text = Json (JObj [(''value'', JArr [JNum 1])]), meta = None, isError = False \<rparr>
   \<and> fetch paging_env 1 (mk_request ''/me/messages?$skip=1'' ''old''
                           (no_options\<lparr>o_method := Some ''GET'', o_headers := Some []\<rparr>))
     = Inr \<lparr> status = 200, statusText = ''OK'', body = page2, etag = None \<rparr>"
  by code_simp

subsection \<open>The tree collector\<close>

lemma childPath_not_empty: "childPath p item \<noteq> []"
  by (simp add: childPath_def)

lemma walk_depths:
  "(d = 0 \<or> less_number (Num (of_nat (d - 1))) (effectiveMaxDepth ctx))
     \<Longrightarrow> \<forall>l \<in> set (listed c). fst (snd l) = 0 \<or> less_number (Num (of_nat (fst (snd l) - 1))) (effectiveMaxDepth ctx)
     \<Longrightarrow> \<forall>l \<in> set (listed (snd (walk ctx i p d c))).
           fst (snd l) = 0 \<or> less_number (Num (of_nat (fst (snd l) - 1))) (effectiveMaxDepth ctx)"
  "(d = 0 \<or> less_number (Num (of_nat (d - 1))) (effectiveMaxDepth ctx))
     \<Longrightarrow> \<forall>l \<in> set (listed c). fst (snd l) = 0 \<or> less_number (Num (of_nat (fst (snd l) - 1))) (effectiveMaxDepth ctx)
     \<Longrightarrow> \<forall>l \<in> set (listed (snd (walk_children ctx p d items nodes c))).
           fst (snd l) = 0 \<or> less_number (Num (of_nat (fst (snd l) - 1))) (effectiveMaxDepth ctx)"
proof (induction ctx i p d c and ctx p d items nodes c rule: walk_walk_children.induct)
  case (1 ctx currentItemId currentPath depth c)
  show ?case
  proof (cases "listDriveItemChildren ctx currentItemId")
    case (Inl err)
    then show ?thesis using "1.prems" by (simp add: walk.simps)
  next
    case (Inr children)
    let ?c1 = "c\<lparr>listed := listed c @ [(currentPath, depth, children)]\<rparr>"
    have "\<forall>l \<in> set (listed ?c1). fst (snd l) = 0 \<or> less_number (Num (of_nat (fst (snd l) - 1))) (effectiveMaxDepth ctx)"
      using "1.prems" by auto
    from "1.IH" [OF Inr "1.prems"(1) this]
    show ?thesis
      by (simp add: walk.simps Inr split: prod.splits sum.splits)
  qed
next
  case (2 ctx currentPath depth childNodes c)
  then show ?case by simp
next
  case (3 ctx currentPath depth item items childNodes c)
  let ?c1 = "if emits ctx item
             then c\<lparr>flatItems := flatItems c @ [baseNode (w_siteId ctx) (w_driveInfo ctx) currentPath item]\<rparr> else c"
  have l1: "listed ?c1 = listed c" by simp
  show ?case
  proof (cases "i_folder item")
    case False
    then show ?thesis
      using "3.IH"(4) [OF refl False _ "3.prems"(1)] "3.IH"(5) [OF refl False _ "3.prems"(1)]
        "3.prems"(2)
      by (cases "w_structure ctx = Tree") (simp_all add: Let_def)
  next
    case True
    show ?thesis
    proof (cases "less_number (Num (of_nat depth)) (effectiveMaxDepth ctx)")
      case False
      then show ?thesis
        using "3.IH"(3) [OF refl True False "3.prems"(1)] "3.prems"(2) True
        by (simp add: Let_def)
    next
      case deep: True
      have d1: "depth + 1 = 0 \<or> less_number (Num (of_nat (depth + 1 - 1))) (effectiveMaxDepth ctx)"
        using deep by simp
      have "\<forall>l \<in> set (listed ?c1). fst (snd l) = 0 \<or> less_number (Num (of_nat (fst (snd l) - 1))) (effectiveMaxDepth ctx)"
        using "3.prems"(2) by simp
      note w = "3.IH"(1) [OF refl True deep d1 this]
      show ?thesis
      proof (cases "walk ctx (i_id item) (childPath currentPath item) (depth + 1) ?c1")
        case (Pair r c2)
        show ?thesis
        proof (cases r)
          case (Inl err)
          then show ?thesis
            using w Pair True deep by (simp add: Let_def)
        next
          case (Inr childNode)
          have "\<forall>l \<in> set (listed c2). fst (snd l) = 0 \<or> less_number (Num (of_nat (fst (snd l) - 1))) (effectiveMaxDepth ctx)"
            using w Pair by simp
          from "3.IH"(2) [OF refl True deep Pair [symmetric] Inr "3.prems"(1) this]
          show ?thesis
            using Pair Inr True deep by (simp add: Let_def)
        qed
      qed
    qed
  qed
qed

lemma cut_off_entry:
  "cut_off_at m (p, d, items) = (\<not> less_number (Num (of_nat d)) m \<and> list_ex i_folder items)"
  by (simp add: cut_off_at_def)

lemma emitted_entry:
  "listing_nodes site driveInfo P (p, d, items) = map (baseNode site driveInfo p) (filter P items)"
  by (simp add: listing_nodes_def)

lemma walk_truncated:
  "walk ctx i p d c = (Inr node, c')
     \<Longrightarrow> (truncated c \<or> Y) = list_ex (cut_off ctx) (listed c)
     \<Longrightarrow> (truncated c' \<or> Y) = list_ex (cut_off ctx) (listed c')"
  "walk_children ctx p d items nodes c = (Inr nodes', c')
     \<Longrightarrow> (truncated c \<or> (\<not> less_number (Num (of_nat d)) (effectiveMaxDepth ctx) \<and> list_ex i_folder items) \<or> Y)
           = list_ex (cut_off ctx) (listed c)
     \<Longrightarrow> (truncated c' \<or> Y) = list_ex (cut_off ctx) (listed c')"
proof (induction ctx i p d c and ctx p d items nodes c arbitrary: node c' Y and nodes' c' Y
       rule: walk_walk_children.induct)
  case (1 ctx currentItemId currentPath depth c)
  show ?case
  proof (cases "listDriveItemChildren ctx currentItemId")
    case (Inl err)
    then show ?thesis using "1.prems" by (simp add: walk.simps)
  next
    case (Inr children)
    let ?c1 = "c\<lparr>listed := listed c @ [(currentPath, depth, children)]\<rparr>"
    obtain childNodes where r: "walk_children ctx currentPath depth children [] ?c1 = (Inr childNodes, c')"
      using "1.prems"(1) by (auto simp: walk.simps Inr split: prod.splits sum.splits)
    have "(truncated ?c1 \<or> (\<not> less_number (Num (of_nat depth)) (effectiveMaxDepth ctx) \<and> list_ex i_folder children) \<or> Y)
            = list_ex (cut_off ctx) (listed ?c1)"
      using "1.prems"(2) by (auto simp: cut_off_entry)
    from "1.IH" [OF Inr r this] show ?thesis .
  qed
next
  case (2 ctx currentPath depth childNodes c)
  then show ?case by auto
next
  case (3 ctx currentPath depth item items childNodes c)
  let ?c1 = "if emits ctx item
             then c\<lparr>flatItems := flatItems c @ [baseNode (w_siteId ctx) (w_driveInfo ctx) currentPath item]\<rparr> else c"
  have l1: "listed ?c1 = listed c" "truncated ?c1 = truncated c" by simp_all
  show ?case
  proof (cases "i_folder item")
    case False
    have pre: "(truncated ?c1 \<or> (\<not> less_number (Num (of_nat depth)) (effectiveMaxDepth ctx) \<and> list_ex i_folder items) \<or> Y)
            = list_ex (cut_off ctx) (listed ?c1)"
      using "3.prems"(2) False unfolding l1 by simp
    show ?thesis
    proof (cases "w_structure ctx = Tree")
      case True
      have "walk_children ctx currentPath depth items (childNodes @ [baseNode (w_siteId ctx) (w_driveInfo ctx) currentPath item]) ?c1
              = (Inr nodes', c')"
        using "3.prems"(1) False True by (simp add: Let_def)
      from "3.IH"(4) [OF refl False True this pre] show ?thesis .
    next
      case flat: False
      have "walk_children ctx currentPath depth items childNodes ?c1 = (Inr nodes', c')"
        using "3.prems"(1) False flat by (simp add: Let_def)
      from "3.IH"(5) [OF refl False flat this pre] show ?thesis .
    qed
  next
    case True
    show ?thesis
    proof (cases "less_number (Num (of_nat depth)) (effectiveMaxDepth ctx)")
      case False
      have r: "walk_children ctx currentPath depth items childNodes (?c1\<lparr>truncated := True\<rparr>)
              = (Inr nodes', c')"
        using "3.prems"(1) True False by (simp add: Let_def)
      have "(truncated (?c1\<lparr>truncated := True\<rparr>)
              \<or> (\<not> less_number (Num (of_nat depth)) (effectiveMaxDepth ctx) \<and> list_ex i_folder items) \<or> Y)
            = list_ex (cut_off ctx) (listed (?c1\<lparr>truncated := True\<rparr>))"
        using "3.prems"(2) True False by simp
      from "3.IH"(3) [OF refl True False r this] show ?thesis .
    next
      case deep: True
      obtain childNode c2 where
        w: "walk ctx (i_id item) (childPath currentPath item) (depth + 1) ?c1 = (Inr childNode, c2)"
        and r: "walk_children ctx currentPath depth items (childNodes @ [childNode]) c2 = (Inr nodes', c')"
        using "3.prems"(1) True deep by (auto simp: Let_def split: prod.splits sum.splits)
      have "(truncated ?c1 \<or> Y) = list_ex (cut_off ctx) (listed ?c1)"
        using "3.prems"(2) deep unfolding l1 by simp
      from "3.IH"(1) [OF refl True deep w this]
      have "(truncated c2 \<or> (\<not> less_number (Num (of_nat depth)) (effectiveMaxDepth ctx) \<and> list_ex i_folder items) \<or> Y)
              = list_ex (cut_off ctx) (listed c2)"
        using deep by simp
      from "3.IH"(2) [OF refl True deep w [symmetric] refl r this] show ?thesis .
    qed
  qed
qed

lemma walk_flatItems:
  "walk ctx i p d c = (Inr node, c')
     \<Longrightarrow> mset (flatItems c) + X = mset (concat (map (emitted ctx) (listed c)))
     \<Longrightarrow> mset (flatItems c') + X = mset (concat (map (emitted ctx) (listed c')))"
  "walk_children ctx p d items nodes c = (Inr nodes', c')
     \<Longrightarrow> mset (flatItems c) + mset (emitted ctx (p, d, items)) + X
           = mset (concat (map (emitted ctx) (listed c)))
     \<Longrightarrow> mset (flatItems c') + X = mset (concat (map (emitted ctx) (listed c')))"
proof (induction ctx i p d c and ctx p d items nodes c arbitrary: node c' X and nodes' c' X
       rule: walk_walk_children.induct)
  case (1 ctx currentItemId currentPath depth c)
  show ?case
  proof (cases "listDriveItemChildren ctx currentItemId")
    case (Inl err)
    then show ?thesis using "1.prems" by (simp add: walk.simps)
  next
    case (Inr children)
    let ?c1 = "c\<lparr>listed := listed c @ [(currentPath, depth, children)]\<rparr>"
    obtain childNodes where r: "walk_children ctx currentPath depth children [] ?c1 = (Inr childNodes, c')"
      using "1.prems"(1) by (auto simp: walk.simps Inr split: prod.splits sum.splits)
    have "mset (flatItems ?c1) + mset (emitted ctx (currentPath, depth, children)) + X
            = mset (concat (map (emitted ctx) (listed ?c1)))"
      using "1.prems"(2) by (simp add: ac_simps emitted_entry)
    from "1.IH" [OF Inr r this] show ?thesis .
  qed
next
  case (2 ctx currentPath depth childNodes c)
  then show ?case by (auto simp: emitted_entry)
next
  case (3 ctx currentPath depth item items childNodes c)
  let ?c1 = "if emits ctx item
             then c\<lparr>flatItems := flatItems c @ [baseNode (w_siteId ctx) (w_driveInfo ctx) currentPath item]\<rparr> else c"
  have l1: "listed ?c1 = listed c" by simp
  have pre: "mset (flatItems ?c1) + mset (emitted ctx (currentPath, depth, items)) + X
               = mset (concat (map (emitted ctx) (listed ?c1)))"
    using "3.prems"(2) unfolding l1 by (cases "emits ctx item") (simp_all add: emitted_entry)
  show ?case
  proof (cases "i_folder item")
    case False
    show ?thesis
    proof (cases "w_structure ctx = Tree")
      case True
      have "walk_children ctx currentPath depth items (childNodes @ [baseNode (w_siteId ctx) (w_driveInfo ctx) currentPath item]) ?c1
              = (Inr nodes', c')"
        using "3.prems"(1) False True by (simp add: Let_def)
      from "3.IH"(4) [OF refl False True this pre] show ?thesis .
    next
      case flat: False
      have "walk_children ctx currentPath depth items childNodes ?c1 = (Inr nodes', c')"
        using "3.prems"(1) False flat by (simp add: Let_def)
      from "3.IH"(5) [OF refl False flat this pre] show ?thesis .
    qed
  next
    case True
    show ?thesis
    proof (cases "less_number (Num (of_nat depth)) (effectiveMaxDepth ctx)")
      case False
      have r: "walk_children ctx currentPath depth items childNodes (?c1\<lparr>truncated := True\<rparr>)
              = (Inr nodes', c')"
        using "3.prems"(1) True False by (simp add: Let_def)
      have "mset (flatItems (?c1\<lparr>truncated := True\<rparr>)) + mset (emitted ctx (currentPath, depth, items)) + X
               = mset (concat (map (emitted ctx) (listed (?c1\<lparr>truncated := True\<rparr>))))"
        using pre by simp
      from "3.IH"(3) [OF refl True False r this] show ?thesis .
    next
      case deep: True
      obtain childNode c2 where
        w: "walk ctx (i_id item) (childPath currentPath item) (depth + 1) ?c1 = (Inr childNode, c2)"
        and r: "walk_children ctx currentPath depth items (childNodes @ [childNode]) c2 = (Inr nodes', c')"
        using "3.prems"(1) True deep by (auto simp: Let_def split: prod.splits sum.splits)
      have "mset (flatItems ?c1) + (mset (emitted ctx (currentPath, depth, items)) + X)
               = mset (concat (map (emitted ctx) (listed ?c1)))"
        using pre by (simp add: ac_simps)
      from "3.IH"(1) [OF refl True deep w this]
      have "mset (flatItems c2) + mset (emitted ctx (currentPath, depth, items)) + X
              = mset (concat (map (emitted ctx) (listed c2)))"
        by (simp add: ac_simps)
      from "3.IH"(2) [OF refl True deep w [symmetric] refl r this] show ?thesis .
    qed
  qed
qed

lemma nodes_of_baseNode: "nodes_of (baseNode site driveInfo p item) = [baseNode site driveInfo p item]"
  by (simp add: baseNode_def)

lemma isFolder_baseNode: "n_isFolder (baseNode site driveInfo p item) = i_folder item"
  by (simp add: baseNode_def)

lemma nodes_of_folderNode:
  "nodes_of (folderNode ctx i p d (Some ns)) = folderNode ctx i p d (Some ns) # concat (map nodes_of ns)"
  by (simp add: folderNode_def)

lemma folderNode_fields:
  "n_isFolder (folderNode ctx i p d ch)" "p \<noteq> [] \<Longrightarrow> n_path (folderNode ctx i p d ch) = p"
  by (simp_all add: folderNode_def)

lemma files_in_Nil: "files_in [] = []" "folders_in [] = []"
  by (simp_all add: files_in_def folders_in_def)

lemma files_in_append: "files_in (xs @ ys) = files_in xs @ files_in ys"
  by (simp add: files_in_def)

lemma folders_in_append: "folders_in (xs @ ys) = folders_in xs @ folders_in ys"
  by (simp add: folders_in_def)

lemma walk_tree_nodes:
  "walk ctx i p d c = (Inr node, c') \<Longrightarrow> w_structure ctx = Tree \<Longrightarrow> p \<noteq> []
     \<Longrightarrow> mset (concat (map (file_nodes ctx) (listed c')))
           = mset (concat (map (file_nodes ctx) (listed c))) + mset (files_in [node])
       \<and> mset (map fst (listed c')) = mset (map fst (listed c)) + mset (folders_in [node])"
  "walk_children ctx p d items nodes c = (Inr nodes', c') \<Longrightarrow> w_structure ctx = Tree
     \<Longrightarrow> mset (concat (map (file_nodes ctx) (listed c'))) + mset (files_in nodes)
             + mset (file_nodes ctx (p, d, items))
           = mset (concat (map (file_nodes ctx) (listed c))) + mset (files_in nodes')
       \<and> mset (map fst (listed c')) + mset (folders_in nodes)
           = mset (map fst (listed c)) + mset (folders_in nodes')"
proof (induction ctx i p d c and ctx p d items nodes c arbitrary: node c' and nodes' c'
       rule: walk_walk_children.induct)
  case (1 ctx currentItemId currentPath depth c)
  show ?case
  proof (cases "listDriveItemChildren ctx currentItemId")
    case (Inl err)
    then show ?thesis using "1.prems" by (simp add: walk.simps)
  next
    case (Inr children)
    let ?c1 = "c\<lparr>listed := listed c @ [(currentPath, depth, children)]\<rparr>"
    obtain childNodes where
      r: "walk_children ctx currentPath depth children [] ?c1 = (Inr childNodes, c')"
      and n: "node = folderNode ctx currentItemId currentPath depth (Some childNodes)"
      using "1.prems"(1,2) by (auto simp: walk.simps Inr split: prod.splits sum.splits)
    have f: "files_in [node] = files_in childNodes"
      "folders_in [node] = currentPath # folders_in childNodes"
      using "1.prems"(3)
      by (simp_all add: n files_in_def folders_in_def nodes_of_folderNode folderNode_fields)
    from "1.IH" [OF Inr r "1.prems"(2)] show ?thesis
      by (simp add: f files_in_Nil)
  qed
next
  case (2 ctx currentPath depth childNodes c)
  then show ?case by (auto simp: emitted_entry)
next
  case (3 ctx currentPath depth item items childNodes c)
  let ?c1 = "if emits ctx item
             then c\<lparr>flatItems := flatItems c @ [baseNode (w_siteId ctx) (w_driveInfo ctx) currentPath item]\<rparr> else c"
  have l1: "listed ?c1 = listed c" by simp
  note tree = "3.prems"(2)
  show ?case
  proof (cases "i_folder item")
    case False
    have r: "walk_children ctx currentPath depth items (childNodes @ [baseNode (w_siteId ctx) (w_driveInfo ctx) currentPath item]) ?c1
              = (Inr nodes', c')"
      using "3.prems"(1) False tree by (simp add: Let_def)
    have b: "files_in [baseNode (w_siteId ctx) (w_driveInfo ctx) currentPath item] = [baseNode (w_siteId ctx) (w_driveInfo ctx) currentPath item]"
      "folders_in [baseNode (w_siteId ctx) (w_driveInfo ctx) currentPath item] = []"
      using False by (simp_all add: files_in_def folders_in_def nodes_of_baseNode isFolder_baseNode)
    from "3.IH"(4) [OF refl False tree r tree] show ?thesis
      unfolding l1 using False
      by (simp add: files_in_append folders_in_append b emitted_entry)
  next
    case True
    show ?thesis
    proof (cases "less_number (Num (of_nat depth)) (effectiveMaxDepth ctx)")
      case False
      have r: "walk_children ctx currentPath depth items childNodes (?c1\<lparr>truncated := True\<rparr>)
              = (Inr nodes', c')"
        using "3.prems"(1) True False by (simp add: Let_def)
      have l2: "listed (?c1\<lparr>truncated := True\<rparr>) = listed c" by simp
      from "3.IH"(3) [OF refl True False r tree] show ?thesis
        unfolding l2 using True by (simp add: emitted_entry)
    next
      case deep: True
      obtain childNode c2 where
        w: "walk ctx (i_id item) (childPath currentPath item) (depth + 1) ?c1 = (Inr childNode, c2)"
        and r: "walk_children ctx currentPath depth items (childNodes @ [childNode]) c2 = (Inr nodes', c')"
        using "3.prems"(1) True deep by (auto simp: Let_def split: prod.splits sum.splits)
      note a = "3.IH"(1) [OF refl True deep w tree childPath_not_empty, unfolded l1]
      note b = "3.IH"(2) [OF refl True deep w [symmetric] refl r tree]
      have fa: "files_in (childNodes @ [childNode]) = files_in childNodes @ files_in [childNode]"
        "folders_in (childNodes @ [childNode]) = folders_in childNodes @ folders_in [childNode]"
        by (simp_all add: files_in_append folders_in_append)
      show ?thesis
        using a b True unfolding fa by (simp add: emitted_entry ac_simps)
    qed
  qed
qed

lemma collect_success:
  assumes "collectSharePointFiles (Inr driveInfo) children options = (Inr r, c)"
  obtains rootNode where
    "walk (walk_context driveInfo children options) (Some (rootItemId driveInfo)) ''/'' 0
       \<lparr> flatItems = [], truncated = False, listed = [] \<rparr> = (Inr rootNode, c)"
    "r = (if opt_structure options = Flat
          then FlatResult (flatItems c) (driveId driveInfo) (driveName driveInfo) (siteId options)
                 (truncated c)
          else TreeResult rootNode (driveId driveInfo) (driveName driveInfo) (siteId options)
                 (truncated c))"
  using assms
  by (auto simp: collectSharePointFiles_def Let_def split: prod.splits sum.splits if_splits)

lemma collect_truncated:
  assumes "collectSharePointFiles (Inr driveInfo) children options = (Inr r, c)"
  shows "r_truncated r = list_ex (cut_off (walk_context driveInfo children options)) (listed c)"
proof -
  from assms obtain rootNode where
    w: "walk (walk_context driveInfo children options) (Some (rootItemId driveInfo)) ''/'' 0
          \<lparr> flatItems = [], truncated = False, listed = [] \<rparr> = (Inr rootNode, c)"
    and "r = (if opt_structure options = Flat
          then FlatResult (flatItems c) (driveId driveInfo) (driveName driveInfo) (siteId options)
                 (truncated c)
          else TreeResult rootNode (driveId driveInfo) (driveName driveInfo) (siteId options)
                 (truncated c))"
    by (rule collect_success)
  then have r: "r_truncated r = truncated c"
    by simp
  from walk_truncated(1) [OF w, of False] show ?thesis
    by (simp add: r)
qed

lemma collect_flat:
  assumes "collectSharePointFiles (Inr driveInfo) children options = (Inr r, c)"
    and "opt_structure options = Flat"
  shows "mset (r_items r)
           = mset (concat (map (emitted (walk_context driveInfo children options)) (listed c)))"
proof -
  from assms(1) obtain rootNode where
    w: "walk (walk_context driveInfo children options) (Some (rootItemId driveInfo)) ''/'' 0
          \<lparr> flatItems = [], truncated = False, listed = [] \<rparr> = (Inr rootNode, c)"
    and "r = (if opt_structure options = Flat
          then FlatResult (flatItems c) (driveId driveInfo) (driveName driveInfo) (siteId options)
                 (truncated c)
          else TreeResult rootNode (driveId driveInfo) (driveName driveInfo) (siteId options)
                 (truncated c))"
    by (rule collect_success)
  then have r: "r_items r = flatItems c"
    using assms(2) by simp
  from walk_flatItems(1) [OF w, of "{#}"] show ?thesis
    by (simp add: r)
qed

lemma collect_tree:
  assumes "collectSharePointFiles (Inr driveInfo) children options = (Inr r, c)"
    and "opt_structure options = Tree"
  shows "mset (files_in [r_root r])
           = mset (concat (map (file_nodes (walk_context driveInfo children options)) (listed c)))"
    and "mset (folders_in [r_root r]) = mset (map fst (listed c))"
proof -
  from assms(1) obtain rootNode where
    w: "walk (walk_context driveInfo children options) (Some (rootItemId driveInfo)) ''/'' 0
          \<lparr> flatItems = [], truncated = False, listed = [] \<rparr> = (Inr rootNode, c)"
    and "r = (if opt_structure options = Flat
          then FlatResult (flatItems c) (driveId driveInfo) (driveName driveInfo) (siteId options)
                 (truncated c)
          else TreeResult rootNode (driveId driveInfo) (driveName driveInfo) (siteId options)
                 (truncated c))"
    by (rule collect_success)
  then have r: "r_root r = rootNode"
    using assms(2) by simp
  have t: "w_structure (walk_context driveInfo children options) = Tree"
    using assms(2) by (simp add: walk_context_def)
  from walk_tree_nodes(1) [OF w t]
  show "mset (files_in [r_root r])
           = mset (concat (map (file_nodes (walk_context driveInfo children options)) (listed c)))"
    and "mset (folders_in [r_root r]) = mset (map fst (listed c))"
    by (simp_all add: r)
qed

lemma path_baseNode: "n_path (baseNode site driveInfo p item) = childPath p item"
  by (simp add: baseNode_def)

lemma children_folderNode: "n_children (folderNode ctx i p d ch) = ch"
  by (simp add: folderNode_def)

lemma walk_tree_shape:
  "walk ctx i p d c = (Inr node, c') \<Longrightarrow> w_structure ctx = Tree \<Longrightarrow> p \<noteq> []
     \<Longrightarrow> set (listed c) \<subseteq> set (listed c') \<and> n_path node = p \<and> n_isFolder node
       \<and> (\<forall>n \<in> set (nodes_of node). n_isFolder n \<longrightarrow>
             (\<exists>l \<in> set (listed c'). matches_listing ctx n l))"
  "walk_children ctx p d items nodes c = (Inr nodes', c') \<Longrightarrow> w_structure ctx = Tree
     \<Longrightarrow> set (listed c) \<subseteq> set (listed c')
       \<and> (\<exists>ns. nodes' = nodes @ ns
             \<and> map n_path ns = map (childPath p) (filter (descended ctx d) items)
             \<and> filter (\<lambda>m. \<not> n_isFolder m) ns
                 = map (baseNode (w_siteId ctx) (w_driveInfo ctx) p) (filter (\<lambda>item. \<not> i_folder item) items)
             \<and> (\<forall>m \<in> set ns. \<forall>n \<in> set (nodes_of m). n_isFolder n \<longrightarrow>
                   (\<exists>l \<in> set (listed c'). matches_listing ctx n l)))"
proof (induction ctx i p d c and ctx p d items nodes c arbitrary: node c' and nodes' c'
       rule: walk_walk_children.induct)
  case (1 ctx currentItemId currentPath depth c)
  show ?case
  proof (cases "listDriveItemChildren ctx currentItemId")
    case (Inl err)
    then show ?thesis using "1.prems" by (simp add: walk.simps)
  next
    case (Inr children)
    let ?l = "(currentPath, depth, children)"
    let ?c1 = "c\<lparr>listed := listed c @ [?l]\<rparr>"
    obtain childNodes where
      r: "walk_children ctx currentPath depth children [] ?c1 = (Inr childNodes, c')"
      and n: "node = folderNode ctx currentItemId currentPath depth (Some childNodes)"
      using "1.prems"(1,2) by (auto simp: walk.simps Inr split: prod.splits sum.splits)
    from "1.IH" [OF Inr r "1.prems"(2)]
    have sub: "set (listed ?c1) \<subseteq> set (listed c')"
      and p: "map n_path childNodes = map (childPath currentPath) (filter (descended ctx depth) children)"
      and f: "filter (\<lambda>m. \<not> n_isFolder m) childNodes
                = map (baseNode (w_siteId ctx) (w_driveInfo ctx) currentPath) (filter (\<lambda>item. \<not> i_folder item) children)"
      and below: "\<forall>m \<in> set childNodes. \<forall>n \<in> set (nodes_of m). n_isFolder n \<longrightarrow>
                   (\<exists>l \<in> set (listed c'). matches_listing ctx n l)"
      by auto
    have here: "?l \<in> set (listed c')"
      using sub by auto
    have m: "matches_listing ctx node ?l"
      using "1.prems"(3) p f
      by (simp add: node_matches_def n folderNode_fields children_folderNode emitted_entry)
    have "\<forall>x \<in> set (nodes_of node). n_isFolder x \<longrightarrow> (\<exists>l \<in> set (listed c'). matches_listing ctx x l)"
      using m here below by (auto simp: n nodes_of_folderNode)
    moreover have "set (listed c) \<subseteq> set (listed c')"
      using sub by auto
    moreover have "n_path node = currentPath" "n_isFolder node"
      using "1.prems"(3) by (simp_all add: n folderNode_fields)
    ultimately show ?thesis
      by simp
  qed
next
  case (2 ctx currentPath depth childNodes c)
  then show ?case by auto
next
  case (3 ctx currentPath depth item items childNodes c)
  let ?c1 = "if emits ctx item
             then c\<lparr>flatItems := flatItems c @ [baseNode (w_siteId ctx) (w_driveInfo ctx) currentPath item]\<rparr> else c"
  have l1: "listed ?c1 = listed c" by simp
  note tree = "3.prems"(2)
  show ?case
  proof (cases "i_folder item")
    case False
    let ?b = "baseNode (w_siteId ctx) (w_driveInfo ctx) currentPath item"
    have r: "walk_children ctx currentPath depth items (childNodes @ [?b]) ?c1 = (Inr nodes', c')"
      using "3.prems"(1) False tree by (simp add: Let_def)
    from "3.IH"(4) [OF refl False tree r tree] obtain ns where
      sub: "set (listed ?c1) \<subseteq> set (listed c')"
      and ns: "nodes' = (childNodes @ [?b]) @ ns"
        "map n_path ns = map (childPath currentPath) (filter (descended ctx depth) items)"
        "filter (\<lambda>m. \<not> n_isFolder m) ns
           = map (baseNode (w_siteId ctx) (w_driveInfo ctx) currentPath) (filter (\<lambda>item. \<not> i_folder item) items)"
        "\<forall>m \<in> set ns. \<forall>n \<in> set (nodes_of m). n_isFolder n \<longrightarrow>
           (\<exists>l \<in> set (listed c'). matches_listing ctx n l)"
      by auto
    have "nodes' = childNodes @ (?b # ns)"
      using ns(1) by simp
    moreover have "map n_path (?b # ns)
        = map (childPath currentPath) (filter (descended ctx depth) (item # items))"
      using False ns(2) by (simp add: descended_at_def path_baseNode)
    moreover have "filter (\<lambda>m. \<not> n_isFolder m) (?b # ns)
        = map (baseNode (w_siteId ctx) (w_driveInfo ctx) currentPath) (filter (\<lambda>item. \<not> i_folder item) (item # items))"
      using False ns(3) by (simp add: isFolder_baseNode)
    moreover have "\<forall>m \<in> set (?b # ns). \<forall>n \<in> set (nodes_of m). n_isFolder n \<longrightarrow>
           (\<exists>l \<in> set (listed c'). matches_listing ctx n l)"
      using False ns(4) by (auto simp: nodes_of_baseNode isFolder_baseNode)
    ultimately show ?thesis
      using sub unfolding l1 by blast
  next
    case True
    show ?thesis
    proof (cases "less_number (Num (of_nat depth)) (effectiveMaxDepth ctx)")
      case False
      have r: "walk_children ctx currentPath depth items childNodes (?c1\<lparr>truncated := True\<rparr>)
              = (Inr nodes', c')"
        using "3.prems"(1) True False by (simp add: Let_def)
      have l2: "listed (?c1\<lparr>truncated := True\<rparr>) = listed c" by simp
      from "3.IH"(3) [OF refl True False r tree] show ?thesis
        unfolding l2 using True False by (simp add: descended_at_def)
    next
      case deep: True
      obtain childNode c2 where
        w: "walk ctx (i_id item) (childPath currentPath item) (depth + 1) ?c1 = (Inr childNode, c2)"
        and r: "walk_children ctx currentPath depth items (childNodes @ [childNode]) c2 = (Inr nodes', c')"
        using "3.prems"(1) True deep by (auto simp: Let_def split: prod.splits sum.splits)
      from "3.IH"(1) [OF refl True deep w tree childPath_not_empty]
      have sub1: "set (listed c) \<subseteq> set (listed c2)"
        and cn: "n_path childNode = childPath currentPath item" "n_isFolder childNode"
        and below1: "\<forall>n \<in> set (nodes_of childNode). n_isFolder n \<longrightarrow>
                       (\<exists>l \<in> set (listed c2). matches_listing ctx n l)"
        unfolding l1 by auto
      from "3.IH"(2) [OF refl True deep w [symmetric] refl r tree] obtain ns where
        sub2: "set (listed c2) \<subseteq> set (listed c')"
        and ns: "nodes' = (childNodes @ [childNode]) @ ns"
          "map n_path ns = map (childPath currentPath) (filter (descended ctx depth) items)"
          "filter (\<lambda>m. \<not> n_isFolder m) ns
             = map (baseNode (w_siteId ctx) (w_driveInfo ctx) currentPath) (filter (\<lambda>item. \<not> i_folder item) items)"
          "\<forall>m \<in> set ns. \<forall>n \<in> set (nodes_of m). n_isFolder n \<longrightarrow>
             (\<exists>l \<in> set (listed c'). matches_listing ctx n l)"
        by auto
      have "nodes' = childNodes @ (childNode # ns)"
        using ns(1) by simp
      moreover have "map n_path (childNode # ns)
          = map (childPath currentPath) (filter (descended ctx depth) (item # items))"
        using deep ns(2) cn(1) by (simp add: descended_at_def)
      moreover have "filter (\<lambda>m. \<not> n_isFolder m) (childNode # ns)
          = map (baseNode (w_siteId ctx) (w_driveInfo ctx) currentPath) (filter (\<lambda>item. \<not> i_folder item) (item # items))"
        using True ns(3) cn(2) by simp
      moreover have "\<forall>n \<in> set (nodes_of childNode). n_isFolder n \<longrightarrow>
                       (\<exists>l \<in> set (listed c'). matches_listing ctx n l)"
        using below1 sub2 by blast
      then have "\<forall>m \<in> set (childNode # ns). \<forall>n \<in> set (nodes_of m). n_isFolder n \<longrightarrow>
             (\<exists>l \<in> set (listed c'). matches_listing ctx n l)"
        using ns(4) by simp
      moreover have "set (listed c) \<subseteq> set (listed c')"
        using sub1 sub2 by auto
      ultimately show ?thesis
        by blast
    qed
  qed
qed

lemma collect_tree_shape:
  assumes "collectSharePointFiles (Inr driveInfo) children options = (Inr r, c)"
    and "opt_structure options = Tree"
  shows "\<forall>n \<in> set (nodes_of (r_root r)). n_isFolder n \<longrightarrow>
           list_ex (matches_listing (walk_context driveInfo children options) n) (listed c)"
proof -
  from assms(1) obtain rootNode where
    w: "walk (walk_context driveInfo children options) (Some (rootItemId driveInfo)) ''/'' 0
          \<lparr> flatItems = [], truncated = False, listed = [] \<rparr> = (Inr rootNode, c)"
    and "r = (if opt_structure options = Flat
          then FlatResult (flatItems c) (driveId driveInfo) (driveName driveInfo) (siteId options)
                 (truncated c)
          else TreeResult rootNode (driveId driveInfo) (driveName driveInfo) (siteId options)
                 (truncated c))"
    by (rule collect_success)
  then have r: "r_root r = rootNode"
    using assms(2) by simp
  have t: "w_structure (walk_context driveInfo children options) = Tree"
    using assms(2) by (simp add: walk_context_def)
  from walk_tree_shape(1) [OF w t] show ?thesis
    by (simp add: r list_ex_iff)
qed

lemma walk_listings:
  "walk ctx i p d c = (Inr node, c')
     \<Longrightarrow> \<exists>ch new. listDriveItemChildren ctx i = Inr ch \<and> listed c' = listed c @ (p, d, ch) # new
           \<and> (\<forall>l \<in> set ((p, d, ch) # new). \<forall>item \<in> set (snd (snd l)).
                 i_folder item \<and> less_number (Num (of_nat (fst (snd l)))) (effectiveMaxDepth ctx) \<longrightarrow>
                 (\<exists>l' \<in> set ((p, d, ch) # new).
                    listing_below (listDriveItemChildren ctx) (fst l) (fst (snd l)) item = Some l'))
           \<and> (\<forall>l' \<in> set new. \<exists>l \<in> set ((p, d, ch) # new).
                 comes_from (listDriveItemChildren ctx) (effectiveMaxDepth ctx) l' l)"
  "walk_children ctx p d items nodes c = (Inr nodes', c')
     \<Longrightarrow> \<exists>new. listed c' = listed c @ new
           \<and> (\<forall>item \<in> set items.
                 i_folder item \<and> less_number (Num (of_nat d)) (effectiveMaxDepth ctx) \<longrightarrow>
                 (\<exists>l' \<in> set new. listing_below (listDriveItemChildren ctx) p d item = Some l'))
           \<and> (\<forall>l \<in> set new. \<forall>item \<in> set (snd (snd l)).
                 i_folder item \<and> less_number (Num (of_nat (fst (snd l)))) (effectiveMaxDepth ctx) \<longrightarrow>
                 (\<exists>l' \<in> set new.
                    listing_below (listDriveItemChildren ctx) (fst l) (fst (snd l)) item = Some l'))
           \<and> (\<forall>l' \<in> set new.
                 (less_number (Num (of_nat d)) (effectiveMaxDepth ctx)
                  \<and> (\<exists>item \<in> set items. i_folder item
                        \<and> listing_below (listDriveItemChildren ctx) p d item = Some l'))
                 \<or> (\<exists>l \<in> set new. comes_from (listDriveItemChildren ctx) (effectiveMaxDepth ctx) l' l))"
proof (induction ctx i p d c and ctx p d items nodes c arbitrary: node c' and nodes' c'
       rule: walk_walk_children.induct)
  case (1 ctx currentItemId currentPath depth c)
  show ?case
  proof (cases "listDriveItemChildren ctx currentItemId")
    case (Inl err)
    then show ?thesis using "1.prems" by (simp add: walk.simps)
  next
    case (Inr children)
    let ?l = "(currentPath, depth, children)"
    let ?c1 = "c\<lparr>listed := listed c @ [?l]\<rparr>"
    obtain childNodes where
      r: "walk_children ctx currentPath depth children [] ?c1 = (Inr childNodes, c')"
      using "1.prems"(1) by (auto simp: walk.simps Inr split: prod.splits sum.splits)
    from "1.IH" [OF Inr r] obtain new where
      n: "listed c' = listed ?c1 @ new"
      and a: "\<forall>item \<in> set children.
                 i_folder item \<and> less_number (Num (of_nat depth)) (effectiveMaxDepth ctx) \<longrightarrow>
                 (\<exists>l' \<in> set new. listing_below (listDriveItemChildren ctx) currentPath depth item = Some l')"
      and b: "\<forall>l \<in> set new. \<forall>item \<in> set (snd (snd l)).
                 i_folder item \<and> less_number (Num (of_nat (fst (snd l)))) (effectiveMaxDepth ctx) \<longrightarrow>
                 (\<exists>l' \<in> set new.
                    listing_below (listDriveItemChildren ctx) (fst l) (fst (snd l)) item = Some l')"
      and g: "\<forall>l' \<in> set new.
                 (less_number (Num (of_nat depth)) (effectiveMaxDepth ctx)
                  \<and> (\<exists>item \<in> set children. i_folder item
                        \<and> listing_below (listDriveItemChildren ctx) currentPath depth item = Some l'))
                 \<or> (\<exists>l \<in> set new. comes_from (listDriveItemChildren ctx) (effectiveMaxDepth ctx) l' l)"
      by blast
    have 1: "listed c' = listed c @ ?l # new"
      using n by simp
    have 2: "\<forall>l \<in> set (?l # new). \<forall>item \<in> set (snd (snd l)).
                 i_folder item \<and> less_number (Num (of_nat (fst (snd l)))) (effectiveMaxDepth ctx) \<longrightarrow>
                 (\<exists>l' \<in> set (?l # new).
                    listing_below (listDriveItemChildren ctx) (fst l) (fst (snd l)) item = Some l')"
      using a b by auto
    have 3: "\<forall>l' \<in> set new. \<exists>l \<in> set (?l # new).
                 comes_from (listDriveItemChildren ctx) (effectiveMaxDepth ctx) l' l"
    proof
      fix l' assume "l' \<in> set new"
      with g consider
          "less_number (Num (of_nat depth)) (effectiveMaxDepth ctx)
           \<and> (\<exists>item \<in> set children. i_folder item
                 \<and> listing_below (listDriveItemChildren ctx) currentPath depth item = Some l')"
        | "\<exists>l \<in> set new. comes_from (listDriveItemChildren ctx) (effectiveMaxDepth ctx) l' l"
        by blast
      then show "\<exists>l \<in> set (?l # new). comes_from (listDriveItemChildren ctx) (effectiveMaxDepth ctx) l' l"
      proof cases
        case 1
        then have "comes_from (listDriveItemChildren ctx) (effectiveMaxDepth ctx) l' ?l"
          by (auto simp: comes_from_def list_ex_iff)
        then show ?thesis by simp
      next
        case 2
        then show ?thesis by auto
      qed
    qed
    show ?thesis
      using Inr 1 2 3 by blast
  qed
next
  case (2 ctx currentPath depth childNodes c)
  then show ?case by auto
next
  case (3 ctx currentPath depth item items childNodes c)
  let ?c1 = "if emits ctx item
             then c\<lparr>flatItems := flatItems c @ [baseNode (w_siteId ctx) (w_driveInfo ctx) currentPath item]\<rparr> else c"
  have l1: "listed ?c1 = listed c" by simp
  show ?case
  proof (cases "i_folder item")
    case False
    show ?thesis
    proof (cases "w_structure ctx = Tree")
      case True
      have "walk_children ctx currentPath depth items
              (childNodes @ [baseNode (w_siteId ctx) (w_driveInfo ctx) currentPath item]) ?c1
              = (Inr nodes', c')"
        using "3.prems"(1) False True by (simp add: Let_def)
      from "3.IH"(4) [OF refl False True this] show ?thesis
        unfolding l1 using False by auto
    next
      case flat: False
      have "walk_children ctx currentPath depth items childNodes ?c1 = (Inr nodes', c')"
        using "3.prems"(1) False flat by (simp add: Let_def)
      from "3.IH"(5) [OF refl False flat this] show ?thesis
        unfolding l1 using False by auto
    qed
  next
    case True
    show ?thesis
    proof (cases "less_number (Num (of_nat depth)) (effectiveMaxDepth ctx)")
      case False
      have r: "walk_children ctx currentPath depth items childNodes (?c1\<lparr>truncated := True\<rparr>)
              = (Inr nodes', c')"
        using "3.prems"(1) True False by (simp add: Let_def)
      have l2: "listed (?c1\<lparr>truncated := True\<rparr>) = listed c" by simp
      from "3.IH"(3) [OF refl True False r] show ?thesis
        unfolding l2 using False by auto
    next
      case deep: True
      let ?p = "childPath currentPath item"
      obtain childNode c2 where
        w: "walk ctx (i_id item) ?p (depth + 1) ?c1 = (Inr childNode, c2)"
        and r: "walk_children ctx currentPath depth items (childNodes @ [childNode]) c2 = (Inr nodes', c')"
        using "3.prems"(1) True deep by (auto simp: Let_def split: prod.splits sum.splits)
      from "3.IH"(1) [OF refl True deep w] obtain ch new1 where
        ch: "listDriveItemChildren ctx (i_id item) = Inr ch"
        and n1: "listed c2 = listed c @ (?p, depth + 1, ch) # new1"
        and b1: "\<forall>l \<in> set ((?p, depth + 1, ch) # new1). \<forall>item \<in> set (snd (snd l)).
                 i_folder item \<and> less_number (Num (of_nat (fst (snd l)))) (effectiveMaxDepth ctx) \<longrightarrow>
                 (\<exists>l' \<in> set ((?p, depth + 1, ch) # new1).
                    listing_below (listDriveItemChildren ctx) (fst l) (fst (snd l)) item = Some l')"
        and g1: "\<forall>l' \<in> set new1. \<exists>l \<in> set ((?p, depth + 1, ch) # new1).
                 comes_from (listDriveItemChildren ctx) (effectiveMaxDepth ctx) l' l"
        unfolding l1 by blast
      from "3.IH"(2) [OF refl True deep w [symmetric] refl r] obtain new2 where
        n2: "listed c' = listed c2 @ new2"
        and a2: "\<forall>item \<in> set items.
                 i_folder item \<and> less_number (Num (of_nat depth)) (effectiveMaxDepth ctx) \<longrightarrow>
                 (\<exists>l' \<in> set new2. listing_below (listDriveItemChildren ctx) currentPath depth item = Some l')"
        and b2: "\<forall>l \<in> set new2. \<forall>item \<in> set (snd (snd l)).
                 i_folder item \<and> less_number (Num (of_nat (fst (snd l)))) (effectiveMaxDepth ctx) \<longrightarrow>
                 (\<exists>l' \<in> set new2.
                    listing_below (listDriveItemChildren ctx) (fst l) (fst (snd l)) item = Some l')"
        and g2: "\<forall>l' \<in> set new2.
                 (less_number (Num (of_nat depth)) (effectiveMaxDepth ctx)
                  \<and> (\<exists>item \<in> set items. i_folder item
                        \<and> listing_below (listDriveItemChildren ctx) currentPath depth item = Some l'))
                 \<or> (\<exists>l \<in> set new2. comes_from (listDriveItemChildren ctx) (effectiveMaxDepth ctx) l' l)"
        by blast
      let ?h = "(?p, depth + 1, ch)"
      let ?new = "(?h # new1) @ new2"
      have here: "listing_below (listDriveItemChildren ctx) currentPath depth item = Some ?h"
        using ch by (simp add: listing_below_def)
      have 1: "listed c' = listed c @ ?new"
        using n1 n2 by simp
      have 2: "\<forall>x \<in> set (item # items).
                 i_folder x \<and> less_number (Num (of_nat depth)) (effectiveMaxDepth ctx) \<longrightarrow>
                 (\<exists>l' \<in> set ?new. listing_below (listDriveItemChildren ctx) currentPath depth x = Some l')"
        using here a2 by auto
      have 3: "\<forall>l \<in> set ?new. \<forall>item \<in> set (snd (snd l)).
                 i_folder item \<and> less_number (Num (of_nat (fst (snd l)))) (effectiveMaxDepth ctx) \<longrightarrow>
                 (\<exists>l' \<in> set ?new.
                    listing_below (listDriveItemChildren ctx) (fst l) (fst (snd l)) item = Some l')"
      proof
        fix l assume "l \<in> set ?new"
        then consider "l \<in> set (?h # new1)" | "l \<in> set new2" by auto
        then show "\<forall>item \<in> set (snd (snd l)).
                 i_folder item \<and> less_number (Num (of_nat (fst (snd l)))) (effectiveMaxDepth ctx) \<longrightarrow>
                 (\<exists>l' \<in> set ?new.
                    listing_below (listDriveItemChildren ctx) (fst l) (fst (snd l)) item = Some l')"
        proof cases
          case 1
          with b1 have "\<forall>item \<in> set (snd (snd l)).
                 i_folder item \<and> less_number (Num (of_nat (fst (snd l)))) (effectiveMaxDepth ctx) \<longrightarrow>
                 (\<exists>l' \<in> set (?h # new1).
                    listing_below (listDriveItemChildren ctx) (fst l) (fst (snd l)) item = Some l')"
            by blast
          then show ?thesis by fastforce
        next
          case 2
          with b2 have "\<forall>item \<in> set (snd (snd l)).
                 i_folder item \<and> less_number (Num (of_nat (fst (snd l)))) (effectiveMaxDepth ctx) \<longrightarrow>
                 (\<exists>l' \<in> set new2.
                    listing_below (listDriveItemChildren ctx) (fst l) (fst (snd l)) item = Some l')"
            by blast
          then show ?thesis by fastforce
        qed
      qed
      have 4: "\<forall>l' \<in> set ?new.
                 (less_number (Num (of_nat depth)) (effectiveMaxDepth ctx)
                  \<and> (\<exists>x \<in> set (item # items). i_folder x
                        \<and> listing_below (listDriveItemChildren ctx) currentPath depth x = Some l'))
                 \<or> (\<exists>l \<in> set ?new. comes_from (listDriveItemChildren ctx) (effectiveMaxDepth ctx) l' l)"
      proof
        fix l' assume "l' \<in> set ?new"
        then consider "l' = ?h" | "l' \<in> set new1" | "l' \<in> set new2" by auto
        then show "(less_number (Num (of_nat depth)) (effectiveMaxDepth ctx)
                  \<and> (\<exists>x \<in> set (item # items). i_folder x
                        \<and> listing_below (listDriveItemChildren ctx) currentPath depth x = Some l'))
                 \<or> (\<exists>l \<in> set ?new. comes_from (listDriveItemChildren ctx) (effectiveMaxDepth ctx) l' l)"
        proof cases
          case 1
          then show ?thesis using here True deep by auto
        next
          case 2
          with g1 obtain l where "l \<in> set (?h # new1)"
            "comes_from (listDriveItemChildren ctx) (effectiveMaxDepth ctx) l' l"
            by blast
          then have "\<exists>l \<in> set ?new. comes_from (listDriveItemChildren ctx) (effectiveMaxDepth ctx) l' l"
            by auto
          then show ?thesis by blast
        next
          case 3
          with g2 consider
              "less_number (Num (of_nat depth)) (effectiveMaxDepth ctx)
                  \<and> (\<exists>x \<in> set items. i_folder x
                        \<and> listing_below (listDriveItemChildren ctx) currentPath depth x = Some l')"
            | "\<exists>l \<in> set new2. comes_from (listDriveItemChildren ctx) (effectiveMaxDepth ctx) l' l"
            by blast
          then show ?thesis
          proof cases
            case 1
            then show ?thesis by auto
          next
            case 2
            then have "\<exists>l \<in> set ?new. comes_from (listDriveItemChildren ctx) (effectiveMaxDepth ctx) l' l"
              by auto
            then show ?thesis by blast
          qed
        qed
      qed
      show ?thesis
        using 1 2 3 4 by blast
    qed
  qed
qed

lemma emits_depth_free: "emits (ctx\<lparr>w_maxDepth := x\<rparr>) = emits ctx"
  by (simp add: emits_def fun_eq_iff)

lemma folderNode_depth_free: "folderNode (ctx\<lparr>w_maxDepth := x\<rparr>) = folderNode ctx"
  by (simp add: folderNode_def fun_eq_iff)

lemma walk_same_ceiling:
  "effectiveMaxDepth (ctx\<lparr>w_maxDepth := x\<rparr>) = effectiveMaxDepth ctx
     \<Longrightarrow> walk (ctx\<lparr>w_maxDepth := x\<rparr>) i p d c = walk ctx i p d c"
  "effectiveMaxDepth (ctx\<lparr>w_maxDepth := x\<rparr>) = effectiveMaxDepth ctx
     \<Longrightarrow> walk_children (ctx\<lparr>w_maxDepth := x\<rparr>) p d items nodes c = walk_children ctx p d items nodes c"
proof (induction ctx i p d c and ctx p d items nodes c rule: walk_walk_children.induct)
  case (1 ctx currentItemId currentPath depth c)
  show ?case
  proof (cases "listDriveItemChildren ctx currentItemId")
    case (Inl err)
    then show ?thesis
      by (simp add: walk.simps [of "ctx\<lparr>w_maxDepth := x\<rparr>"] walk.simps [of ctx])
  next
    case (Inr children)
    from "1.IH" [OF Inr "1.prems"] show ?thesis
      by (simp add: walk.simps [of "ctx\<lparr>w_maxDepth := x\<rparr>"] walk.simps [of ctx] Inr
          folderNode_depth_free split: prod.splits sum.splits)
  qed
next
  case (2 ctx currentPath depth childNodes c)
  show ?case by simp
next
  case (3 ctx currentPath depth item items childNodes c)
  let ?c1 = "if emits ctx item
             then c\<lparr>flatItems := flatItems c @ [baseNode (w_siteId ctx) (w_driveInfo ctx) currentPath item]\<rparr> else c"
  note e = "3.prems"
  show ?case
  proof (cases "i_folder item")
    case False
    show ?thesis
    proof (cases "w_structure ctx = Tree")
      case True
      from "3.IH"(4) [OF refl False True e] show ?thesis
        using False True by (simp add: Let_def emits_depth_free split del: if_split cong: if_cong)
    next
      case flat: False
      from "3.IH"(5) [OF refl False flat e] show ?thesis
        using False flat by (simp add: Let_def emits_depth_free split del: if_split cong: if_cong)
    qed
  next
    case True
    show ?thesis
    proof (cases "less_number (Num (of_nat depth)) (effectiveMaxDepth ctx)")
      case False
      from "3.IH"(3) [OF refl True False e] show ?thesis
        using True False by (simp add: Let_def emits_depth_free e split del: if_split cong: if_cong)
    next
      case deep: True
      note a = "3.IH"(1) [OF refl True deep e]
      show ?thesis
      proof (cases "walk ctx (i_id item) (childPath currentPath item) (depth + 1) ?c1")
        case (Pair res c2)
        show ?thesis
        proof (cases res)
          case (Inl err)
          then show ?thesis
            using a Pair True deep by (simp add: Let_def emits_depth_free e split del: if_split cong: if_cong)
        next
          case (Inr childNode)
          from "3.IH"(2) [OF refl True deep Pair [symmetric] Inr e] show ?thesis
            using a Pair Inr True deep by (simp add: Let_def emits_depth_free e split del: if_split cong: if_cong)
        qed
      qed
    qed
  qed
qed

lemma walk_context_fields:
  "w_siteId (walk_context driveInfo children options) = siteId options"
  "w_driveInfo (walk_context driveInfo children options) = driveInfo"
  "w_structure (walk_context driveInfo children options) = opt_structure options"
  "listDriveItemChildren (walk_context driveInfo children options) = children"
  "effectiveMaxDepth (walk_context driveInfo children options)
     = Math_min (case maxDepth options of Some x \<Rightarrow> x | None \<Rightarrow> Num 10) (Num 20)"
  "emits (walk_context driveInfo children options)
     = (\<lambda>item. matchesFilter (itemName item) (filter_opt options)
                \<and> (\<not> i_folder item \<or> includeFolders options = Some True))"
  by (auto simp: walk_context_def effectiveMaxDepth_def SAFE_MAX_DEPTH_def emits_def fun_eq_iff
           split: option.splits)

lemma Math_min_above: "less_number (Num 20) x \<Longrightarrow> Math_min x (Num 20) = Num 20"
  by (cases x) simp_all

lemma Math_min_bound:
  "less_number (Num (of_nat d)) (Math_min x (Num 20)) \<Longrightarrow> d < 20"
  by (cases x) simp_all

lemma collect_clamped:
  assumes "less_number (Num 20) x"
  shows "collectSharePointFiles resolved children (options\<lparr>maxDepth := Some x\<rparr>)
           = collectSharePointFiles resolved children (options\<lparr>maxDepth := Some (Num 20)\<rparr>)"
proof (cases resolved)
  case (Inl err)
  then show ?thesis by (simp add: collectSharePointFiles_def)
next
  case (Inr driveInfo)
  let ?ctx = "walk_context driveInfo children (options\<lparr>maxDepth := Some (Num 20)\<rparr>)"
  have c: "walk_context driveInfo children (options\<lparr>maxDepth := Some x\<rparr>) = ?ctx\<lparr>w_maxDepth := x\<rparr>"
    by (simp add: walk_context_def)
  have e: "effectiveMaxDepth (?ctx\<lparr>w_maxDepth := x\<rparr>) = effectiveMaxDepth ?ctx"
    using assms by (simp add: effectiveMaxDepth_def SAFE_MAX_DEPTH_def walk_context_def Math_min_above)
  have w: "walk (walk_context driveInfo children (options\<lparr>maxDepth := Some x\<rparr>)) i p d c0 = walk ?ctx i p d c0"
    for i p d c0
    unfolding c using e by (rule walk_same_ceiling(1))
  have s: "opt_structure (options\<lparr>maxDepth := y\<rparr>) = opt_structure options"
    "siteId (options\<lparr>maxDepth := y\<rparr>) = siteId options" for y
    by simp_all
  show ?thesis
    unfolding collectSharePointFiles_def Inr sum.case w s ..
qed

lemma collect_depths:
  "\<forall>l \<in> set (listed (snd (collectSharePointFiles resolved children options))).
     fst (snd l) = 0
     \<or> less_number (Num (of_nat (fst (snd l) - 1)))
          (Math_min (case maxDepth options of Some x \<Rightarrow> x | None \<Rightarrow> Num 10) (Num 20))"
proof (cases resolved)
  case (Inl err)
  then show ?thesis by (simp add: collectSharePointFiles_def)
next
  case (Inr driveInfo)
  let ?ctx = "walk_context driveInfo children options"
  let ?c0 = "\<lparr> flatItems = [], truncated = False, listed = [] \<rparr>"
  have s: "snd (collectSharePointFiles resolved children options)
             = snd (walk ?ctx (Some (rootItemId driveInfo)) ''/'' 0 ?c0)"
    by (simp add: collectSharePointFiles_def Inr split: prod.splits sum.splits)
  have "\<forall>l \<in> set (listed (snd (walk ?ctx (Some (rootItemId driveInfo)) ''/'' 0 ?c0))).
          fst (snd l) = 0 \<or> less_number (Num (of_nat (fst (snd l) - 1))) (effectiveMaxDepth ?ctx)"
    by (rule walk_depths(1)) simp_all
  then show ?thesis
    unfolding s walk_context_fields .
qed

lemma collect_listings:
  assumes "collectSharePointFiles (Inr driveInfo) children options = (Inr r, c)"
  shows "\<exists>ch. children (Some (rootItemId driveInfo)) = Inr ch \<and> (''/'', 0, ch) \<in> set (listed c)
           \<and> (\<forall>l' \<in> set (listed c). l' = (''/'', 0, ch)
                 \<or> (\<exists>l \<in> set (listed c).
                       comes_from children
                         (Math_min (case maxDepth options of Some x \<Rightarrow> x | None \<Rightarrow> Num 10) (Num 20)) l' l))"
    and "\<forall>l \<in> set (listed c). \<forall>item \<in> set (snd (snd l)).
           i_folder item
           \<and> less_number (Num (of_nat (fst (snd l))))
               (Math_min (case maxDepth options of Some x \<Rightarrow> x | None \<Rightarrow> Num 10) (Num 20)) \<longrightarrow>
           (\<exists>l' \<in> set (listed c). listing_below children (fst l) (fst (snd l)) item = Some l')"
proof -
  from assms obtain rootNode where
    w: "walk (walk_context driveInfo children options) (Some (rootItemId driveInfo)) ''/'' 0
          \<lparr> flatItems = [], truncated = False, listed = [] \<rparr> = (Inr rootNode, c)"
    by (rule collect_success)
  from walk_listings(1) [OF w, unfolded walk_context_fields] obtain ch new where
    ch: "children (Some (rootItemId driveInfo)) = Inr ch"
    and n: "listed c = (''/'', 0, ch) # new"
    and b: "\<forall>l \<in> set ((''/'', 0, ch) # new). \<forall>item \<in> set (snd (snd l)).
              i_folder item
              \<and> less_number (Num (of_nat (fst (snd l))))
                  (Math_min (case maxDepth options of Some x \<Rightarrow> x | None \<Rightarrow> Num 10) (Num 20)) \<longrightarrow>
              (\<exists>l' \<in> set ((''/'', 0, ch) # new).
                 listing_below children (fst l) (fst (snd l)) item = Some l')"
    and g: "\<forall>l' \<in> set new. \<exists>l \<in> set ((''/'', 0, ch) # new).
              comes_from children
                (Math_min (case maxDepth options of Some x \<Rightarrow> x | None \<Rightarrow> Num 10) (Num 20)) l' l"
    by auto
  have "\<forall>l' \<in> set (listed c). l' = (''/'', 0, ch)
          \<or> (\<exists>l \<in> set (listed c).
                comes_from children
                  (Math_min (case maxDepth options of Some x \<Rightarrow> x | None \<Rightarrow> Num 10) (Num 20)) l' l)"
    using g unfolding n by auto
  then show "\<exists>ch. children (Some (rootItemId driveInfo)) = Inr ch \<and> (''/'', 0, ch) \<in> set (listed c)
           \<and> (\<forall>l' \<in> set (listed c). l' = (''/'', 0, ch)
                 \<or> (\<exists>l \<in> set (listed c).
                       comes_from children
                         (Math_min (case maxDepth options of Some x \<Rightarrow> x | None \<Rightarrow> Num 10) (Num 20)) l' l))"
    using ch n by auto
  show "\<forall>l \<in> set (listed c). \<forall>item \<in> set (snd (snd l)).
           i_folder item
           \<and> less_number (Num (of_nat (fst (snd l))))
               (Math_min (case maxDepth options of Some x \<Rightarrow> x | None \<Rightarrow> Num 10) (Num 20)) \<longrightarrow>
           (\<exists>l' \<in> set (listed c). listing_below children (fst l) (fst (snd l)) item = Some l')"
    using b unfolding n .
qed

lemma baseNode_same:
  "baseNode site driveInfo p a = baseNode site driveInfo q b
     \<Longrightarrow> itemName a = itemName b \<and> i_folder a = i_folder b"
  by (simp add: baseNode_def)

lemma collect_flat_member:
  assumes "collectSharePointFiles (Inr driveInfo) children options = (Inr r, c)"
    and "opt_structure options = Flat"
    and "l \<in> set (listed c)" and "item \<in> set (snd (snd l))"
  shows "baseNode (siteId options) driveInfo (fst l) item \<in> set (r_items r)
         \<longleftrightarrow> matchesFilter (itemName item) (filter_opt options)
             \<and> (\<not> i_folder item \<or> includeFolders options = Some True)"
proof -
  let ?rule = "\<lambda>item. matchesFilter (itemName item) (filter_opt options)
                       \<and> (\<not> i_folder item \<or> includeFolders options = Some True)"
  have "set (r_items r)
          = set (concat (map (listing_nodes (siteId options) driveInfo ?rule) (listed c)))"
    using collect_flat [OF assms(1,2), unfolded walk_context_fields] by (rule mset_eq_setD)
  then have m: "n \<in> set (r_items r)
      \<longleftrightarrow> (\<exists>l' \<in> set (listed c). \<exists>x \<in> set (snd (snd l')).
             ?rule x \<and> n = baseNode (siteId options) driveInfo (fst l') x)" for n
    by (auto simp: listing_nodes_def)
  show ?thesis
  proof
    assume "baseNode (siteId options) driveInfo (fst l) item \<in> set (r_items r)"
    then have "\<exists>l' \<in> set (listed c). \<exists>x \<in> set (snd (snd l')).
             ?rule x \<and> baseNode (siteId options) driveInfo (fst l) item
                          = baseNode (siteId options) driveInfo (fst l') x"
      by (simp only: m)
    then obtain q x where x: "matchesFilter (itemName x) (filter_opt options)"
      "\<not> i_folder x \<or> includeFolders options = Some True"
      "baseNode (siteId options) driveInfo (fst l) item = baseNode (siteId options) driveInfo q x"
      by auto
    from baseNode_same [OF x(3)] x(1,2) show "?rule item"
      by simp
  next
    assume "?rule item"
    then show "baseNode (siteId options) driveInfo (fst l) item \<in> set (r_items r)"
      unfolding m using assms(3,4) by blast
  qed
qed

text \<open>
  C8 as amended. Let \<open>m\<close> be the smaller of the requested maximum depth (10 when none is
  given) and 20. A requested depth above 20 gives the result of the depth 20. No listing
  is made deeper than 20, and every listing but the root's is made one level below a
  depth that is below \<open>m\<close>. On a successful call the listings are exactly the root's, at
  depth 0, and for every folder found in a listing made at a depth below \<open>m\<close> the listing
  of that folder one level down: a folder found in a listing made at a depth not below
  \<open>m\<close> is not listed. \<open>truncated\<close> is true exactly when there is such a cut-off folder.
  In flat mode a folder found in a listing, cut off or not, is in the result exactly when
  include-folders is set and its name matches the filter. In tree mode the folder nodes
  of the tree are exactly the folders that were listed, and the children of such a node
  are, in order, the files of its listing and the folders of its listing that were
  descended into: a folder that was cut off is not attached.
\<close>

theorem depth_ceiling:
  "(less_number (Num 20) requested \<longrightarrow>
      collectSharePointFiles resolved children (options\<lparr>maxDepth := Some requested\<rparr>)
        = collectSharePointFiles resolved children (options\<lparr>maxDepth := Some (Num 20)\<rparr>))
   \<and> (let m = Math_min (case maxDepth options of Some x \<Rightarrow> x | None \<Rightarrow> Num 10) (Num 20) in
      (\<forall>l \<in> set (listed (snd (collectSharePointFiles resolved children options))).
         fst (snd l) \<le> 20
         \<and> (fst (snd l) = 0 \<or> less_number (Num (of_nat (fst (snd l) - 1))) m))
      \<and> (collectSharePointFiles (Inr driveInfo) children options = (Inr r, c) \<longrightarrow>
           (\<exists>ch. children (Some (rootItemId driveInfo)) = Inr ch \<and> (''/'', 0, ch) \<in> set (listed c)
              \<and> (\<forall>l' \<in> set (listed c).
                    l' = (''/'', 0, ch) \<or> (\<exists>l \<in> set (listed c). comes_from children m l' l)))
           \<and> (\<forall>l \<in> set (listed c). \<forall>item \<in> set (snd (snd l)).
                 i_folder item \<and> less_number (Num (of_nat (fst (snd l)))) m \<longrightarrow>
                 (\<exists>l' \<in> set (listed c). listing_below children (fst l) (fst (snd l)) item = Some l'))
           \<and> r_truncated r = list_ex (cut_off_at m) (listed c)
           \<and> (opt_structure options = Flat \<longrightarrow>
                (\<forall>l \<in> set (listed c). \<forall>item \<in> set (snd (snd l)). i_folder item \<longrightarrow>
                   (baseNode (siteId options) driveInfo (fst l) item \<in> set (r_items r)
                    \<longleftrightarrow> includeFolders options = Some True
                        \<and> matchesFilter (itemName item) (filter_opt options))))
           \<and> (opt_structure options = Tree \<longrightarrow>
                mset (folders_in [r_root r]) = mset (map fst (listed c))
                \<and> (\<forall>n \<in> set (nodes_of (r_root r)). n_isFolder n \<longrightarrow>
                      list_ex (node_matches (siteId options) driveInfo m n) (listed c)))))"
proof -
  let ?m = "Math_min (case maxDepth options of Some x \<Rightarrow> x | None \<Rightarrow> Num 10) (Num 20)"
  have clamp: "less_number (Num 20) requested \<longrightarrow>
      collectSharePointFiles resolved children (options\<lparr>maxDepth := Some requested\<rparr>)
        = collectSharePointFiles resolved children (options\<lparr>maxDepth := Some (Num 20)\<rparr>)"
    using collect_clamped by blast
  have depths: "\<forall>l \<in> set (listed (snd (collectSharePointFiles resolved children options))).
         fst (snd l) \<le> 20
         \<and> (fst (snd l) = 0 \<or> less_number (Num (of_nat (fst (snd l) - 1))) ?m)"
  proof
    fix l assume "l \<in> set (listed (snd (collectSharePointFiles resolved children options)))"
    with collect_depths [of resolved children options]
    have d: "fst (snd l) = 0 \<or> less_number (Num (of_nat (fst (snd l) - 1))) ?m"
      by blast
    then have "fst (snd l) \<le> 20"
      using Math_min_bound [of "fst (snd l) - 1"] by fastforce
    with d show "fst (snd l) \<le> 20
         \<and> (fst (snd l) = 0 \<or> less_number (Num (of_nat (fst (snd l) - 1))) ?m)"
      by simp
  qed
  have success: "(\<exists>ch. children (Some (rootItemId driveInfo)) = Inr ch \<and> (''/'', 0, ch) \<in> set (listed c)
              \<and> (\<forall>l' \<in> set (listed c).
                    l' = (''/'', 0, ch) \<or> (\<exists>l \<in> set (listed c). comes_from children ?m l' l)))
           \<and> (\<forall>l \<in> set (listed c). \<forall>item \<in> set (snd (snd l)).
                 i_folder item \<and> less_number (Num (of_nat (fst (snd l)))) ?m \<longrightarrow>
                 (\<exists>l' \<in> set (listed c). listing_below children (fst l) (fst (snd l)) item = Some l'))
           \<and> r_truncated r = list_ex (cut_off_at ?m) (listed c)
           \<and> (opt_structure options = Flat \<longrightarrow>
                (\<forall>l \<in> set (listed c). \<forall>item \<in> set (snd (snd l)). i_folder item \<longrightarrow>
                   (baseNode (siteId options) driveInfo (fst l) item \<in> set (r_items r)
                    \<longleftrightarrow> includeFolders options = Some True
                        \<and> matchesFilter (itemName item) (filter_opt options))))
           \<and> (opt_structure options = Tree \<longrightarrow>
                mset (folders_in [r_root r]) = mset (map fst (listed c))
                \<and> (\<forall>n \<in> set (nodes_of (r_root r)). n_isFolder n \<longrightarrow>
                      list_ex (node_matches (siteId options) driveInfo ?m n) (listed c)))"
    if a: "collectSharePointFiles (Inr driveInfo) children options = (Inr r, c)"
  proof (intro conjI impI)
    show "\<exists>ch. children (Some (rootItemId driveInfo)) = Inr ch \<and> (''/'', 0, ch) \<in> set (listed c)
              \<and> (\<forall>l' \<in> set (listed c).
                    l' = (''/'', 0, ch) \<or> (\<exists>l \<in> set (listed c). comes_from children ?m l' l))"
      using a by (rule collect_listings(1))
    show "\<forall>l \<in> set (listed c). \<forall>item \<in> set (snd (snd l)).
                 i_folder item \<and> less_number (Num (of_nat (fst (snd l)))) ?m \<longrightarrow>
                 (\<exists>l' \<in> set (listed c). listing_below children (fst l) (fst (snd l)) item = Some l')"
      using a by (rule collect_listings(2))
    show "r_truncated r = list_ex (cut_off_at ?m) (listed c)"
      using collect_truncated [OF a] by (simp only: walk_context_fields)
  next
    assume f: "opt_structure options = Flat"
    show "\<forall>l \<in> set (listed c). \<forall>item \<in> set (snd (snd l)). i_folder item \<longrightarrow>
                   (baseNode (siteId options) driveInfo (fst l) item \<in> set (r_items r)
                    \<longleftrightarrow> includeFolders options = Some True
                        \<and> matchesFilter (itemName item) (filter_opt options))"
      using collect_flat_member [OF a f] by auto
  next
    assume t: "opt_structure options = Tree"
    show "mset (folders_in [r_root r]) = mset (map fst (listed c))"
      using a t by (rule collect_tree(2))
    show "\<forall>n \<in> set (nodes_of (r_root r)). n_isFolder n \<longrightarrow>
            list_ex (node_matches (siteId options) driveInfo ?m n) (listed c)"
      using collect_tree_shape [OF a t] by (simp only: walk_context_fields)
  qed
  show ?thesis
    unfolding Let_def using clamp depths success by blast
qed

text \<open>
  C9. Let a call succeed. In flat mode the result list holds, each as often as it was
  found, exactly the nodes of those children found in the listings whose name matches
  the filter and that are files or, when include-folders is set, folders; so a child
  found in a listing is in the result exactly when that holds for it, and a folder
  failing the filter never is. In tree mode the file nodes of the tree are exactly the
  nodes of the files found in the listings, whatever the filter says, and every folder
  node stands for a listing and has all the files of that listing, in order, as its file
  children.
\<close>

theorem emission_rule:
  assumes "collectSharePointFiles (Inr driveInfo) children options = (Inr r, c)"
  shows "(opt_structure options = Flat \<longrightarrow>
            mset (r_items r)
              = mset (concat (map (listing_nodes (siteId options) driveInfo
                   (\<lambda>item. matchesFilter (itemName item) (filter_opt options)
                            \<and> (\<not> i_folder item \<or> includeFolders options = Some True)))
                   (listed c)))
            \<and> (\<forall>l \<in> set (listed c). \<forall>item \<in> set (snd (snd l)).
                  baseNode (siteId options) driveInfo (fst l) item \<in> set (r_items r)
                  \<longleftrightarrow> matchesFilter (itemName item) (filter_opt options)
                      \<and> (\<not> i_folder item \<or> includeFolders options = Some True)))
       \<and> (opt_structure options = Tree \<longrightarrow>
            mset (files_in [r_root r])
              = mset (concat (map (listing_nodes (siteId options) driveInfo (\<lambda>item. \<not> i_folder item))
                   (listed c)))
            \<and> (\<forall>n \<in> set (nodes_of (r_root r)). n_isFolder n \<longrightarrow>
                  (\<exists>l \<in> set (listed c). \<exists>ch. n_path n = fst l \<and> n_children n = Some ch
                     \<and> filter (\<lambda>x. \<not> n_isFolder x) ch
                         = listing_nodes (siteId options) driveInfo (\<lambda>item. \<not> i_folder item) l)))"
proof (intro conjI impI)
  assume f: "opt_structure options = Flat"
  show "mset (r_items r)
              = mset (concat (map (listing_nodes (siteId options) driveInfo
                   (\<lambda>item. matchesFilter (itemName item) (filter_opt options)
                            \<and> (\<not> i_folder item \<or> includeFolders options = Some True)))
                   (listed c)))"
    using collect_flat [OF assms f] by (simp only: walk_context_fields)
  show "\<forall>l \<in> set (listed c). \<forall>item \<in> set (snd (snd l)).
                  baseNode (siteId options) driveInfo (fst l) item \<in> set (r_items r)
                  \<longleftrightarrow> matchesFilter (itemName item) (filter_opt options)
                      \<and> (\<not> i_folder item \<or> includeFolders options = Some True)"
    using collect_flat_member [OF assms f] by blast
next
  assume t: "opt_structure options = Tree"
  show "mset (files_in [r_root r])
              = mset (concat (map (listing_nodes (siteId options) driveInfo (\<lambda>item. \<not> i_folder item))
                   (listed c)))"
    using collect_tree(1) [OF assms t] by (simp only: walk_context_fields)
  have shape: "\<forall>n \<in> set (nodes_of (r_root r)). n_isFolder n \<longrightarrow>
          list_ex (node_matches (siteId options) driveInfo
                     (effectiveMaxDepth (walk_context driveInfo children options)) n) (listed c)"
    using collect_tree_shape [OF assms t] by (simp only: walk_context_fields(1,2))
  show "\<forall>n \<in> set (nodes_of (r_root r)). n_isFolder n \<longrightarrow>
                  (\<exists>l \<in> set (listed c). \<exists>ch. n_path n = fst l \<and> n_children n = Some ch
                     \<and> filter (\<lambda>x. \<not> n_isFolder x) ch
                         = listing_nodes (siteId options) driveInfo (\<lambda>item. \<not> i_folder item) l)"
  proof (intro ballI impI)
    fix n assume "n \<in> set (nodes_of (r_root r))" "n_isFolder n"
    with shape obtain l where l: "l \<in> set (listed c)"
      "node_matches (siteId options) driveInfo
         (effectiveMaxDepth (walk_context driveInfo children options)) n l"
      by (auto simp: list_ex_iff)
    from l(2) obtain ch where "n_path n = fst l" "n_children n = Some ch"
      "filter (\<lambda>x. \<not> n_isFolder x) ch
         = listing_nodes (siteId options) driveInfo (\<lambda>item. \<not> i_folder item) l"
      by (cases "n_children n") (simp_all add: node_matches_def)
    with l(1) show "\<exists>l \<in> set (listed c). \<exists>ch. n_path n = fst l \<and> n_children n = Some ch
                     \<and> filter (\<lambda>x. \<not> n_isFolder x) ch
                         = listing_nodes (siteId options) driveInfo (\<lambda>item. \<not> i_folder item) l"
      by blast
  qed
qed

text \<open>
  C8 as stated has the folders at the ceiling still appear in the result. In the nested
  library with the maximum depth 3 in tree mode the folder \<open>d4\<close> is found in the listing
  made at depth 3 and is cut off: \<open>truncated\<close> is set, and \<open>d4\<close> is not a node of the tree,
  whose folders are the root and \<open>d1\<close> to \<open>d3\<close>.
\<close>

theorem folder_at_ceiling_absent:
  "(case collectSharePointFiles (Inr documents_drive) nested_library depth3_tree of
      (Inr r, c) \<Rightarrow>
        r_truncated r
        \<and> (''/d1/d2/d3'', 3, [folder_item ''d4'', file_item ''d.PDF'']) \<in> set (listed c)
        \<and> folders_in [r_root r] = [''/'', ''/d1'', ''/d1/d2'', ''/d1/d2/d3'']
        \<and> ''/d1/d2/d3/d4'' \<notin> set (map n_path (nodes_of (r_root r)))
    | (Inl err, c) \<Rightarrow> False)"
  by code_simp

theorem depth_ceiling_witness:
  "collectSharePointFiles (Inr documents_drive) endless_library depth25_flat
     = collectSharePointFiles (Inr documents_drive) endless_library depth20_flat
   \<and> map (\<lambda>l. fst (snd l))
        (listed (snd (collectSharePointFiles (Inr documents_drive) endless_library depth25_flat)))
       = [0, 1, 2, 3, 4, 5, 6, 7, 8, 9, 10, 11, 12, 13, 14, 15, 16, 17, 18, 19, 20]
   \<and> r_truncated (projr (fst (collectSharePointFiles (Inr documents_drive) endless_library depth25_flat)))
   \<and> list_all (\<lambda>l. fst (snd l) \<le> 20 \<and> (fst (snd l) = 0 \<or> of_nat (fst (snd l) - 1) < (5 / 2 :: rat)))
        (listed (snd (collectSharePointFiles (Inr documents_drive) nested_library
                        depth_two_and_a_half)))
   \<and> map (\<lambda>l. fst (snd l))
        (listed (snd (collectSharePointFiles (Inr documents_drive) nested_library depth_two_and_a_half)))
       = [0, 1, 2, 3]
   \<and> (\<exists>l' \<in> set (listed (snd (collectSharePointFiles (Inr documents_drive) nested_library depth3_tree))).
         listing_below nested_library ''/d1/d2'' 2 (folder_item ''d3'') = Some l')
   \<and> r_truncated (projr (fst (collectSharePointFiles (Inr documents_drive) nested_library depth3_tree)))
       = list_ex (cut_off_at (Num 3))
           (listed (snd (collectSharePointFiles (Inr documents_drive) nested_library depth3_tree)))
   \<and> mset (folders_in [r_root (projr (fst (collectSharePointFiles (Inr documents_drive)
                                               nested_library depth3_tree)))])
       = mset (map fst (listed (snd (collectSharePointFiles (Inr documents_drive)
                                        nested_library depth3_tree))))
   \<and> baseNode ''site'' documents_drive ''/d1/d2/d3'' (folder_item ''d4'')
       \<in> set (r_items (projr (fst (collectSharePointFiles (Inr documents_drive) nested_library
                                      named_d_with_folders))))
   \<and> baseNode ''site'' documents_drive ''/d1/d2/d3'' (folder_item ''d4'')
       \<notin> set (r_items (projr (fst (collectSharePointFiles (Inr documents_drive) nested_library
                                      pdf_with_folders))))"
proof -
  let ?e = "collectSharePointFiles (Inr documents_drive) endless_library depth25_flat"
  let ?h = "collectSharePointFiles (Inr documents_drive) nested_library depth_two_and_a_half"
  let ?t = "collectSharePointFiles (Inr documents_drive) nested_library depth3_tree"
  let ?n = "collectSharePointFiles (Inr documents_drive) nested_library named_d_with_folders"
  let ?p = "collectSharePointFiles (Inr documents_drive) nested_library pdf_with_folders"
  let ?l3 = "(''/d1/d2/d3'', 3 :: nat, [folder_item ''d4'', file_item ''d.PDF''])"
  let ?l2 = "(''/d1/d2'', 2 :: nat, [folder_item ''d3'', file_item ''c.pdf''])"
  have o: "depth25_flat = list_options\<lparr>maxDepth := Some (Num 25)\<rparr>"
    "depth20_flat = list_options\<lparr>maxDepth := Some (Num 20)\<rparr>"
    by (simp_all add: depth25_flat_def depth20_flat_def)
  have f: "maxDepth depth_two_and_a_half = Some (Num (5 / 2))" "maxDepth depth3_tree = Some (Num 3)"
    "opt_structure depth3_tree = Tree"
    "maxDepth named_d_with_folders = Some (Num 3)" "opt_structure named_d_with_folders = Flat"
    "includeFolders named_d_with_folders = Some True" "filter_opt named_d_with_folders = Some ''d*''"
    "siteId named_d_with_folders = ''site''"
    "maxDepth pdf_with_folders = Some (Num 3)" "opt_structure pdf_with_folders = Flat"
    "includeFolders pdf_with_folders = Some True" "filter_opt pdf_with_folders = Some ''*.pdf''"
    "siteId pdf_with_folders = ''site''"
    by (simp_all add: depth_two_and_a_half_def depth3_tree_def named_d_with_folders_def
        pdf_with_folders_def list_options_def)
  have t: "?t = (Inr (projr (fst ?t)), snd ?t)" by code_simp
  have n: "?n = (Inr (projr (fst ?n)), snd ?n)" by code_simp
  have p: "?p = (Inr (projr (fst ?p)), snd ?p)" by code_simp
  have l3: "?l3 \<in> set (listed (snd ?n))" "?l3 \<in> set (listed (snd ?p))" by code_simp+
  have l2: "?l2 \<in> set (listed (snd ?t))" by code_simp
  have d4: "i_folder (folder_item ''d4'')" "i_folder (folder_item ''d3'')"
    "matchesFilter (itemName (folder_item ''d4'')) (Some ''d*'')"
    "\<not> matchesFilter (itemName (folder_item ''d4'')) (Some ''*.pdf'')"
    by code_simp+
  have 1: "?e = collectSharePointFiles (Inr documents_drive) endless_library depth20_flat"
    using depth_ceiling [where requested = "Num 25" and resolved = "Inr documents_drive"
        and children = endless_library and options = list_options]
    by (simp add: o)
  have 2: "map (\<lambda>l. fst (snd l)) (listed (snd ?e))
             = [0, 1, 2, 3, 4, 5, 6, 7, 8, 9, 10, 11, 12, 13, 14, 15, 16, 17, 18, 19, 20]"
    by code_simp
  have 3: "r_truncated (projr (fst ?e))" by code_simp
  have 4: "list_all (\<lambda>l. fst (snd l) \<le> 20 \<and> (fst (snd l) = 0 \<or> of_nat (fst (snd l) - 1) < (5 / 2 :: rat)))
             (listed (snd ?h))"
    using depth_ceiling [where resolved = "Inr documents_drive" and children = nested_library
        and options = depth_two_and_a_half]
    by (simp add: f Let_def list_all_iff)
  have 5: "map (\<lambda>l. fst (snd l)) (listed (snd ?h)) = [0, 1, 2, 3]" by code_simp
  note a = depth_ceiling [where resolved = "Inr documents_drive" and children = nested_library
      and options = depth3_tree and driveInfo = documents_drive and r = "projr (fst ?t)"
      and c = "snd ?t"]
  have 6: "\<exists>l' \<in> set (listed (snd ?t)).
             listing_below nested_library ''/d1/d2'' 2 (folder_item ''d3'') = Some l'"
    using a t l2 d4(2) by (fastforce simp: f Let_def)
  have 7: "r_truncated (projr (fst ?t)) = list_ex (cut_off_at (Num 3)) (listed (snd ?t))"
    using a t by (simp add: f Let_def)
  have 8: "mset (folders_in [r_root (projr (fst ?t))]) = mset (map fst (listed (snd ?t)))"
    using a t by (simp add: f Let_def)
  note b = depth_ceiling [where resolved = "Inr documents_drive" and children = nested_library
      and options = named_d_with_folders and driveInfo = documents_drive and r = "projr (fst ?n)"
      and c = "snd ?n"]
  have 9: "baseNode ''site'' documents_drive ''/d1/d2/d3'' (folder_item ''d4'')
             \<in> set (r_items (projr (fst ?n)))"
    using b n l3(1) d4(1,3) by (fastforce simp: f Let_def)
  note c = depth_ceiling [where resolved = "Inr documents_drive" and children = nested_library
      and options = pdf_with_folders and driveInfo = documents_drive and r = "projr (fst ?p)"
      and c = "snd ?p"]
  have 10: "baseNode ''site'' documents_drive ''/d1/d2/d3'' (folder_item ''d4'')
             \<notin> set (r_items (projr (fst ?p)))"
    using c p l3(2) d4(1,4) by (fastforce simp: f Let_def)
  show ?thesis
    using 1 2 3 4 5 6 7 8 9 10 by simp
qed

theorem emission_rule_witness:
  "map n_path (r_items (projr (fst (collectSharePointFiles (Inr documents_drive) nested_library
                                       named_d_with_folders))))
     = [''/d1'', ''/d1/d2'', ''/d1/d2/d3'', ''/d1/d2/d3/d4'', ''/d1/d2/d3/d.PDF'']
   \<and> mset (r_items (projr (fst (collectSharePointFiles (Inr documents_drive) nested_library
                                    named_d_with_folders))))
       = mset (concat (map (listing_nodes ''site'' documents_drive
                              (\<lambda>item. matchesFilter (itemName item) (Some ''d*'')))
                 (listed (snd (collectSharePointFiles (Inr documents_drive) nested_library
                                 named_d_with_folders)))))
   \<and> baseNode ''site'' documents_drive ''/'' (folder_item ''d1'')
       \<in> set (r_items (projr (fst (collectSharePointFiles (Inr documents_drive) nested_library
                                      named_d_with_folders))))
   \<and> map n_path (r_items (projr (fst (collectSharePointFiles (Inr documents_drive) nested_library
                                         pdf_with_folders))))
       = [''/d1/d2/d3/d.PDF'', ''/d1/d2/c.pdf'', ''/a.pdf'']
   \<and> baseNode ''site'' documents_drive ''/'' (folder_item ''d1'')
       \<notin> set (r_items (projr (fst (collectSharePointFiles (Inr documents_drive) nested_library
                                      pdf_with_folders))))
   \<and> mset (files_in [r_root (projr (fst (collectSharePointFiles (Inr documents_drive)
                                             nested_library depth3_tree)))])
       = mset (concat (map (listing_nodes ''site'' documents_drive (\<lambda>item. \<not> i_folder item))
                 (listed (snd (collectSharePointFiles (Inr documents_drive) nested_library depth3_tree)))))"
proof -
  let ?n = "collectSharePointFiles (Inr documents_drive) nested_library named_d_with_folders"
  let ?p = "collectSharePointFiles (Inr documents_drive) nested_library pdf_with_folders"
  let ?t = "collectSharePointFiles (Inr documents_drive) nested_library depth3_tree"
  let ?l0 = "(''/'', 0 :: nat, [folder_item ''d1'', file_item ''a.pdf''])"
  have f: "opt_structure named_d_with_folders = Flat"
    "includeFolders named_d_with_folders = Some True" "filter_opt named_d_with_folders = Some ''d*''"
    "siteId named_d_with_folders = ''site''"
    "opt_structure pdf_with_folders = Flat"
    "includeFolders pdf_with_folders = Some True" "filter_opt pdf_with_folders = Some ''*.pdf''"
    "siteId pdf_with_folders = ''site''"
    "opt_structure depth3_tree = Tree" "siteId depth3_tree = ''site''"
    by (simp_all add: depth3_tree_def named_d_with_folders_def pdf_with_folders_def list_options_def)
  have n: "?n = (Inr (projr (fst ?n)), snd ?n)" by code_simp
  have p: "?p = (Inr (projr (fst ?p)), snd ?p)" by code_simp
  have t: "?t = (Inr (projr (fst ?t)), snd ?t)" by code_simp
  have l0: "?l0 \<in> set (listed (snd ?n))" "?l0 \<in> set (listed (snd ?p))" by code_simp+
  have d1: "matchesFilter (itemName (folder_item ''d1'')) (Some ''d*'')"
    "\<not> matchesFilter (itemName (folder_item ''d1'')) (Some ''*.pdf'')"
    by code_simp+
  have 1: "map n_path (r_items (projr (fst ?n)))
             = [''/d1'', ''/d1/d2'', ''/d1/d2/d3'', ''/d1/d2/d3/d4'', ''/d1/d2/d3/d.PDF'']"
    by code_simp
  have 2: "mset (r_items (projr (fst ?n)))
       = mset (concat (map (listing_nodes ''site'' documents_drive
                              (\<lambda>item. matchesFilter (itemName item) (Some ''d*'')))
                 (listed (snd ?n))))"
    using emission_rule [OF n] by (simp add: f)
  have 3: "baseNode ''site'' documents_drive ''/'' (folder_item ''d1'') \<in> set (r_items (projr (fst ?n)))"
    using emission_rule [OF n] l0(1) d1(1) by (fastforce simp: f)
  have 4: "map n_path (r_items (projr (fst ?p))) = [''/d1/d2/d3/d.PDF'', ''/d1/d2/c.pdf'', ''/a.pdf'']"
    by code_simp
  have 5: "baseNode ''site'' documents_drive ''/'' (folder_item ''d1'') \<notin> set (r_items (projr (fst ?p)))"
    using emission_rule [OF p] l0(2) d1(2) by (fastforce simp: f)
  have 6: "mset (files_in [r_root (projr (fst ?t))])
       = mset (concat (map (listing_nodes ''site'' documents_drive (\<lambda>item. \<not> i_folder item))
                 (listed (snd ?t))))"
    using emission_rule [OF t] by (simp add: f)
  show ?thesis
    using 1 2 3 4 5 6 by simp
qed

subsection \<open>Registration\<close>

lemma try_register_names:
  "fst ` set (reg_server (try_register g name h)) \<subseteq> insert name (fst ` set (reg_server g))"
  by (auto simp: try_register_def server_tool_def)

lemma try_register_fresh:
  "name \<notin> fst ` set (reg_server g) \<Longrightarrow>
     reg_server (try_register g name h) = reg_server g @ [(name, h)]"
  by (simp add: try_register_def server_tool_def)

lemma register_endpoint_names:
  "fst ` set (reg_server (register_endpoint ed ro rx om g t))
     \<subseteq> insert (t_alias t) (fst ` set (reg_server g))"
  using try_register_names [of g "t_alias t"]
  by (auto simp: register_endpoint_def Let_def)

lemma register_loop_names:
  "fst ` set (reg_server (foldl (register_endpoint ed ro rx om) g ts))
     \<subseteq> t_alias ` set ts \<union> fst ` set (reg_server g)"
proof (induction ts arbitrary: g)
  case Nil
  then show ?case by simp
next
  case (Cons t ts)
  show ?case
    using Cons.IH [of "register_endpoint ed ro rx om g t"] register_endpoint_names [of ed ro rx om g t]
    by auto
qed

lemma try_register_all:
  "P h \<Longrightarrow> \<forall>h' \<in> snd ` set (reg_server g). P h' \<Longrightarrow>
     \<forall>h' \<in> snd ` set (reg_server (try_register g name h)). P h'"
  by (auto simp: try_register_def server_tool_def)

lemma register_endpoint_read_only:
  assumes "\<forall>h \<in> snd ` set (reg_server g). read_only_safe h"
  shows "\<forall>h \<in> snd ` set (reg_server (register_endpoint ed True rx om g t)). read_only_safe h"
proof (cases "toUpperCase (t_method t) = ''GET''")
  case True
  then have "read_only_safe (CatalogTool t (find (\<lambda>e. toolName e = t_alias t) ed))"
    by (simp add: read_only_safe_def)
  from try_register_all [of read_only_safe, OF this assms]
  show ?thesis
    using assms by (simp add: register_endpoint_def Let_def)
next
  case False
  then show ?thesis
    using assms by (simp add: register_endpoint_def Let_def)
qed

lemma register_loop_read_only:
  "\<forall>h \<in> snd ` set (reg_server g). read_only_safe h \<Longrightarrow>
     \<forall>h \<in> snd ` set (reg_server (foldl (register_endpoint ed True rx om) g ts)). read_only_safe h"
proof (induction ts arbitrary: g)
  case Nil
  then show ?case by simp
next
  case (Cons t ts)
  from Cons.IH [OF register_endpoint_read_only [OF Cons.prems]]
  show ?case by simp
qed

text \<open>
  C10. Whatever the configuration (read-only or not, with or without a name pattern,
  organisation mode or not) and whatever the catalog, the download handler is registered
  under \<open>download-file-to-local\<close>, provided the name is not taken by an earlier
  registration or by a catalog endpoint. Only the loop over the catalog consults
  \<open>readOnly\<close>: in read-only mode every catalog endpoint it registers is a GET.
\<close>

theorem download_tool_always_registered:
  assumes "''download-file-to-local'' \<notin> fst ` set srv"
    and "''download-file-to-local'' \<notin> t_alias ` set endpoints"
  shows "map_of (snd (registerGraphTools endpoints endpointsData srv readOnly enabledToolsRegex orgMode))
           ''download-file-to-local'' = Some DownloadFileToLocal
       \<and> (\<forall>h \<in> snd ` set (snd (registerGraphTools endpoints endpointsData [] True
                                      enabledToolsRegex orgMode)). read_only_safe h)"
proof -
  let ?g0 = "\<lparr> reg_server = srv, registeredCount = 0, skippedCount = 0, failedCount = 0 \<rparr>"
  let ?g1 = "foldl (register_endpoint endpointsData readOnly enabledToolsRegex orgMode) ?g0 endpoints"
  let ?g2 = "try_register ?g1 ''list-sharepoint-site-files'' ListSharePointSiteFiles"
  let ?g3 = "try_register ?g2 ''download-file-to-local'' DownloadFileToLocal"
  have "''download-file-to-local'' \<notin> fst ` set (reg_server ?g1)"
    using register_loop_names [of endpointsData readOnly enabledToolsRegex orgMode ?g0 endpoints] assms
    by auto
  then have "''download-file-to-local'' \<notin> fst ` set (reg_server ?g2)"
    using try_register_names [of ?g1 "''list-sharepoint-site-files''" ListSharePointSiteFiles]
    by auto
  then have "reg_server ?g3 = reg_server ?g2 @ [(''download-file-to-local'', DownloadFileToLocal)]"
    by (rule try_register_fresh)
  moreover have "map_of (reg_server ?g2) ''download-file-to-local'' = None"
    using \<open>''download-file-to-local'' \<notin> fst ` set (reg_server ?g2)\<close>
    by (simp add: map_of_eq_None_iff)
  ultimately have "map_of (reg_server ?g3) ''download-file-to-local'' = Some DownloadFileToLocal"
    by (simp add: map_add_def)
  then have a: "map_of (snd (registerGraphTools endpoints endpointsData srv readOnly enabledToolsRegex
                               orgMode)) ''download-file-to-local'' = Some DownloadFileToLocal"
    by (simp add: registerGraphTools_def Let_def)
  let ?e0 = "\<lparr> reg_server = [], registeredCount = 0, skippedCount = 0, failedCount = 0 \<rparr>"
  let ?e1 = "foldl (register_endpoint endpointsData True enabledToolsRegex orgMode) ?e0 endpoints"
  let ?e2 = "try_register ?e1 ''list-sharepoint-site-files'' ListSharePointSiteFiles"
  let ?e3 = "try_register ?e2 ''download-file-to-local'' DownloadFileToLocal"
  have e1: "\<forall>h \<in> snd ` set (reg_server ?e1). read_only_safe h"
    by (rule register_loop_read_only) simp
  have e2: "\<forall>h \<in> snd ` set (reg_server ?e2). read_only_safe h"
    by (rule try_register_all [OF _ e1]) (simp add: read_only_safe_def)
  have "\<forall>h \<in> snd ` set (reg_server ?e3). read_only_safe h"
    by (rule try_register_all [OF _ e2]) (simp add: read_only_safe_def)
  then have b: "\<forall>h \<in> snd ` set (snd (registerGraphTools endpoints endpointsData [] True
                                          enabledToolsRegex orgMode)). read_only_safe h"
    by (simp add: registerGraphTools_def Let_def)
  show ?thesis
    using a b by simp
qed

theorem download_tool_always_registered_witness:
  "map_of (snd (registerGraphTools small_catalog [] [] True None False)) ''download-file-to-local''
     = Some DownloadFileToLocal
   \<and> map fst (snd (registerGraphTools small_catalog [] [] True None False))
       = [''list-mail-messages'', ''list-sharepoint-site-files'', ''download-file-to-local'']
   \<and> fst (registerGraphTools small_catalog [] [] True None False) = 3"
proof -
  have h: "''download-file-to-local'' \<notin> fst ` set ([] :: server)"
    "''download-file-to-local'' \<notin> t_alias ` set small_catalog"
    by (simp_all add: small_catalog_def messages_tool_def send_mail_tool_def)
  have v: "map fst (snd (registerGraphTools small_catalog [] [] True None False))
       = [''list-mail-messages'', ''list-sharepoint-site-files'', ''download-file-to-local'']"
    "fst (registerGraphTools small_catalog [] [] True None False) = 3"
    by code_simp+
  from download_tool_always_registered [OF h, of "[]" True None False] v
  show ?thesis by simp
qed

end
